theory Spec2Isabelle
  imports Main
begin

section \<open>The dynamic array \<open>DS::Array<T>\<close>\<close>

text \<open>
  The class has three members: \<open>int _capacity\<close>, \<open>int _size\<close> and \<open>T *_array\<close>.
  The pointer is modelled by the heap block it points to: \<open>None\<close> is \<open>nullptr\<close>,
  \<open>Some b\<close> a block of \<open>length b\<close> slots obtained from \<open>new T[n]\<close>. A slot is
  \<open>None\<close> while no value has been assigned to it (it is default-initialised) and
  \<open>Some v\<close> afterwards. The members and parameters of type \<open>int\<close> are integers of
  the model; the arithmetic of 32-bit \<open>int\<close>s is written out below where a result can
  leave the range of \<open>int\<close>.
\<close>

type_synonym 'a ptr = "'a option list option"

record 'a Array =
  m_capacity :: int
  m_size :: int
  m_array :: "'a ptr"

text \<open>
  One constructor per \<open>throw\<close> of the source, named after its message. The last two
  are not thrown by the class itself: \<open>new T[n]\<close> with a negative \<open>n\<close>, and an access
  through a null pointer or outside the allocated block (undefined behaviour in C++).
\<close>

datatype error =
    Invalid_capacity
  | Invalid_size
  | Invalid_capacity_argument
  | Index_out_of_bounds
  | Array_is_full
  | Array_is_empty
  | Invalid_length
  | Length_is_out_of_bounds
  | Bad_array_new_length
  | Undefined_behaviour

text \<open>
  The error kinds of the specification: \<open>std::out_of_range\<close> is \<open>IndexOutOfRange\<close>,
  the \<open>std::runtime_error\<close>s are told apart by what they report.
\<close>

datatype error_kind = InvalidArgument | IndexOutOfRange | Underflow | CapacityExceeded

fun kind_of :: "error \<Rightarrow> error_kind option" where
  "kind_of Invalid_capacity = Some InvalidArgument"
| "kind_of Invalid_size = Some InvalidArgument"
| "kind_of Invalid_capacity_argument = Some InvalidArgument"
| "kind_of Invalid_length = Some InvalidArgument"
| "kind_of Index_out_of_bounds = Some IndexOutOfRange"
| "kind_of Length_is_out_of_bounds = Some IndexOutOfRange"
| "kind_of Array_is_full = Some CapacityExceeded"
| "kind_of Array_is_empty = Some Underflow"
| "kind_of Bad_array_new_length = None"
| "kind_of Undefined_behaviour = None"

text \<open>Sequencing of statements that may throw: the first error ends the call.\<close>

definition bnd :: "error + 'a \<Rightarrow> ('a \<Rightarrow> error + 'b) \<Rightarrow> error + 'b" where
  "bnd m f = (case m of Inl e \<Rightarrow> Inl e | Inr x \<Rightarrow> f x)"

text \<open>Division of C++ \<open>int\<close>s truncates towards zero.\<close>

definition cdiv :: "int \<Rightarrow> int \<Rightarrow> int" where
  "cdiv a b = sgn a * sgn b * (\<bar>a\<bar> div \<bar>b\<bar>)"

subsection \<open>Arithmetic of \<open>int\<close>\<close>

text \<open>
  An \<open>int\<close> has 32 bits. Signed overflow is undefined in C++; the model takes the
  two's-complement result, which is what the compiled program computes. The operands of the
  source are always \<open>int\<close>s; on integers that no \<open>int\<close> holds the operations of the
  model are exact.
\<close>

definition INT_MAX :: int where
  "INT_MAX = 2147483647"

definition INT_MIN :: int where
  "INT_MIN = - 2147483648"

definition is_int :: "int \<Rightarrow> bool" where
  "is_int x = (INT_MIN \<le> x \<and> x \<le> INT_MAX)"

definition wrap :: "int \<Rightarrow> int" where
  "wrap r = (r + 2147483648) mod 4294967296 - 2147483648"

definition int_add :: "int \<Rightarrow> int \<Rightarrow> int" where
  "int_add x y = (if is_int x \<and> is_int y then wrap (x + y) else x + y)"

definition int_sub :: "int \<Rightarrow> int \<Rightarrow> int" where
  "int_sub x y = (if is_int x \<and> is_int y then wrap (x - y) else x - y)"

definition int_mul :: "int \<Rightarrow> int \<Rightarrow> int" where
  "int_mul x y = (if is_int x \<and> is_int y then wrap (x * y) else x * y)"

text \<open>
  Three computations of the class can overflow in a state it can reach, where
  \<open>0 \<le> _size \<le> _capacity \<le> INT_MAX\<close>, and are written with these operations:
  \<open>_capacity * 2\<close> in \<open>grow\<close>, \<open>++_capacity\<close> in \<open>insert_at\<close> and
  \<open>index + (length - 1)\<close> in \<open>remove_at\<close>. The other sums and differences cannot, and are
  left exact:
  \<^item> a loop counter is incremented while it is below its bound, and \<open>index + 1\<close> and
    \<open>end_delete_idx + 1\<close> are taken of values below \<open>_size\<close>;
  \<^item> \<open>_size++\<close> in \<open>push\<close> and \<open>++_size\<close> in \<open>operator[]\<close> are reached when the array is
    not full, so that \<open>_size < _capacity\<close>;
  \<^item> \<open>_size - length\<close>, \<open>_size - 1\<close>, \<open>i - length\<close>, \<open>i - 1\<close> and \<open>_size - 1 - i\<close>
    subtract positive values from a value that is not negative;
  \<^item> \<open>_size + 1\<close> in \<open>insert_at\<close> overflows only at \<open>_size = INT_MAX\<close>, where the array
    is full, \<open>++_capacity\<close> has overflowed and \<open>new T[new_capacity]\<close> throws before the
    sum is used (see \<open>insert_at_size_in_range\<close> below).
\<close>

subsection \<open>Heap blocks\<close>

definition new_arr :: "int \<Rightarrow> error + 'a ptr" where
  "new_arr n = (if n < 0 then Inl Bad_array_new_length
                else Inr (Some (replicate (nat n) None)))"

definition rd :: "'a ptr \<Rightarrow> int \<Rightarrow> error + 'a option" where
  "rd p i = (case p of
               None \<Rightarrow> Inl Undefined_behaviour
             | Some b \<Rightarrow> if 0 \<le> i \<and> i < int (length b) then Inr (b ! nat i)
                         else Inl Undefined_behaviour)"

definition wr :: "'a ptr \<Rightarrow> int \<Rightarrow> 'a option \<Rightarrow> error + 'a ptr" where
  "wr p i x = (case p of
                 None \<Rightarrow> Inl Undefined_behaviour
               | Some b \<Rightarrow> if 0 \<le> i \<and> i < int (length b) then Inr (Some (b[nat i := x]))
                           else Inl Undefined_behaviour)"

text \<open>
  The copying loops of \<open>resize\<close>, \<open>remove_at\<close> and \<open>insert_at\<close> all have the form
  \<open>for (int i = lo; i < hi; ++i) dst[i - doff] = src[i - soff];\<close>
\<close>

function copy_loop :: "int \<Rightarrow> int \<Rightarrow> int \<Rightarrow> int \<Rightarrow> 'a ptr \<Rightarrow> 'a ptr \<Rightarrow> error + 'a ptr" where
  "copy_loop i hi soff doff src dst =
     (if i < hi
      then bnd (rd src (i - soff)) (\<lambda>x.
           bnd (wr dst (i - doff) x) (\<lambda>dst'.
           copy_loop (i + 1) hi soff doff src dst'))
      else Inr dst)"
  by pat_completeness auto
termination
  by (relation "measure (\<lambda>(i, hi, soff, doff, src, dst). nat (hi - i))") auto

declare copy_loop.simps [simp del]

subsection \<open>Private members\<close>

definition index_in_bounds :: "'a Array \<Rightarrow> int \<Rightarrow> bool" where
  "index_in_bounds a index = (index \<ge> 0 \<and> index < m_size a)"

definition setter_index_in_bounds :: "'a Array \<Rightarrow> int \<Rightarrow> bool" where
  "setter_index_in_bounds a index = (index \<ge> 0 \<and> index \<le> m_size a)"

definition is_valid_capacity :: "int \<Rightarrow> bool" where
  "is_valid_capacity capacity = (capacity \<ge> 1)"

definition is_valid_size :: "int \<Rightarrow> bool" where
  "is_valid_size sz = (sz \<ge> 0)"

definition set_capacity :: "'a Array \<Rightarrow> int \<Rightarrow> error + 'a Array" where
  "set_capacity a capacity =
     (if \<not> is_valid_capacity capacity then Inl Invalid_capacity
      else Inr (a\<lparr>m_capacity := capacity\<rparr>))"

definition set_size :: "'a Array \<Rightarrow> int \<Rightarrow> error + 'a Array" where
  "set_size a sz =
     (if \<not> is_valid_size sz then Inl Invalid_size
      else Inr (a\<lparr>m_size := sz\<rparr>))"

definition full :: "'a Array \<Rightarrow> bool" where
  "full a = (m_size a = m_capacity a)"

subsection \<open>Public members\<close>

text \<open>
  The constructor \<open>Array(capacity = 1)\<close>. The members hold no value before the
  constructor sets them; the record it starts from is a placeholder, every field of which
  is overwritten.
\<close>

definition Array_new :: "int \<Rightarrow> error + 'a Array" where
  "Array_new capacity =
     bnd (set_capacity \<lparr>m_capacity = 0, m_size = 0, m_array = None\<rparr> capacity) (\<lambda>a.
     bnd (set_size a 0) (\<lambda>a.
     bnd (new_arr capacity) (\<lambda>p.
     Inr (a\<lparr>m_array := p\<rparr>))))"

text \<open>\<open>clear\<close>: \<open>delete[] _array; _array = nullptr; set_size(0);\<close>\<close>

definition clear :: "'a Array \<Rightarrow> error + 'a Array" where
  "clear a = set_size (a\<lparr>m_array := None\<rparr>) 0"

definition empty_arr :: "'a Array \<Rightarrow> bool" where
  "empty_arr a = (m_size a = 0)"

definition capacity :: "'a Array \<Rightarrow> int" where
  "capacity a = m_capacity a"

definition size_arr :: "'a Array \<Rightarrow> int" where
  "size_arr a = m_size a"

text \<open>The \<open>const\<close> \<open>operator[]\<close> and \<open>at\<close> have the same body.\<close>

definition subscript_const :: "'a Array \<Rightarrow> int \<Rightarrow> error + 'a option" where
  "subscript_const a index =
     (if \<not> index_in_bounds a index then Inl Index_out_of_bounds
      else rd (m_array a) index)"

definition at_arr :: "'a Array \<Rightarrow> int \<Rightarrow> error + 'a option" where
  "at_arr a index =
     (if \<not> index_in_bounds a index then Inl Index_out_of_bounds
      else rd (m_array a) index)"

text \<open>
  The mutable \<open>operator[]\<close> returns a reference to the slot \<open>_array[index]\<close>: the model
  returns the array after the call and the index of that slot.
\<close>

definition subscript :: "'a Array \<Rightarrow> int \<Rightarrow> error + ('a Array \<times> int)" where
  "subscript a index =
     (if \<not> setter_index_in_bounds a index then Inl Index_out_of_bounds
      else if full a then Inl Array_is_full
      else let a' = (if index = m_size a then a\<lparr>m_size := m_size a + 1\<rparr> else a)
           in bnd (rd (m_array a') index) (\<lambda>_. Inr (a', index)))"

definition resize :: "'a Array \<Rightarrow> int \<Rightarrow> error + 'a Array" where
  "resize a new_capacity =
     (if \<not> is_valid_capacity new_capacity then Inl Invalid_capacity_argument
      else if new_capacity = m_capacity a then Inr a
      else bnd (new_arr new_capacity) (\<lambda>new_array.
           let copy_limit = min new_capacity (m_size a) in
           bnd (copy_loop 0 copy_limit 0 0 (m_array a) new_array) (\<lambda>new_array.
           bnd (clear a) (\<lambda>a'.
           Inr (a'\<lparr>m_array := new_array, m_capacity := new_capacity,
                    m_size := copy_limit\<rparr>)))))"

definition grow :: "'a Array \<Rightarrow> error + 'a Array" where
  "grow a =
     (if full a
      then let new_capacity = (if m_capacity a = 0 then 1 else int_mul (m_capacity a) 2)
           in resize a new_capacity
      else Inr a)"

definition shrink :: "'a Array \<Rightarrow> error + 'a Array" where
  "shrink a =
     (if m_size a < cdiv (m_capacity a) 4 then resize a (cdiv (m_capacity a) 2)
      else Inr a)"

text \<open>
  \<open>reverse\<close>: \<open>for (int i = 0; i <= mid; ++i) std::swap(_array[i], _array[_size - 1 - i]);\<close>
\<close>

function swap_loop :: "int \<Rightarrow> int \<Rightarrow> int \<Rightarrow> 'a ptr \<Rightarrow> error + 'a ptr" where
  "swap_loop i mid sz p =
     (if i \<le> mid
      then bnd (rd p i) (\<lambda>x.
           bnd (rd p (sz - 1 - i)) (\<lambda>y.
           bnd (wr p i y) (\<lambda>p'.
           bnd (wr p' (sz - 1 - i) x) (\<lambda>p''.
           swap_loop (i + 1) mid sz p''))))
      else Inr p)"
  by pat_completeness auto
termination
  by (relation "measure (\<lambda>(i, mid, sz, p). nat (mid + 1 - i))") auto

declare swap_loop.simps [simp del]

definition reverse :: "'a Array \<Rightarrow> error + 'a Array" where
  "reverse a =
     (if empty_arr a then Inr a
      else let mid = cdiv (m_size a - 1) 2 in
           bnd (swap_loop 0 mid (m_size a) (m_array a)) (\<lambda>p.
           Inr (a\<lparr>m_array := p\<rparr>)))"

text \<open>\<open>push\<close>: \<open>if (full()) grow(); _array[_size++] = value;\<close>\<close>

definition push :: "'a Array \<Rightarrow> 'a \<Rightarrow> error + 'a Array" where
  "push a v =
     bnd (if full a then grow a else Inr a) (\<lambda>a'.
     bnd (wr (m_array a') (m_size a') (Some v)) (\<lambda>p.
     Inr (a'\<lparr>m_array := p, m_size := m_size a' + 1\<rparr>)))"

text \<open>
  \<open>pop\<close>: after the emptiness check the source destroys the last element with
  \<open>_array[_size - 1].~T()\<close> (the slot holds no value afterwards), executes \<open>--size;\<close>
  and calls \<open>shrink()\<close>. The statement \<open>--size;\<close> names the member function \<open>size()\<close>,
  not the member \<open>_size\<close>: no statement of \<open>pop\<close> assigns to \<open>_size\<close>, and the model
  leaves it as it is.
\<close>

definition pop :: "'a Array \<Rightarrow> error + 'a Array" where
  "pop a =
     (if empty_arr a then Inl Array_is_empty
      else bnd (wr (m_array a) (m_size a - 1) None) (\<lambda>p.
           shrink (a\<lparr>m_array := p\<rparr>)))"

definition remove_at :: "'a Array \<Rightarrow> int \<Rightarrow> int \<Rightarrow> error + 'a Array" where
  "remove_at a index len =
     (if \<not> index_in_bounds a index then Inl Index_out_of_bounds
      else if len < 0 then Inl Invalid_length
      else if len = 0 then Inr a
      else let end_delete_idx = int_add index (int_sub len 1) in
           if end_delete_idx \<ge> m_size a then Inl Length_is_out_of_bounds
           else bnd (new_arr (m_capacity a)) (\<lambda>copy_arr.
                let new_size = m_size a - len in
                bnd (copy_loop 0 index 0 0 (m_array a) copy_arr) (\<lambda>copy_arr.
                bnd (copy_loop (end_delete_idx + 1) (m_size a) 0 len (m_array a) copy_arr)
                  (\<lambda>copy_arr.
                bnd (clear a) (\<lambda>a'.
                shrink (a'\<lparr>m_array := copy_arr, m_size := new_size\<rparr>))))))"

text \<open>
  \<open>insert_at\<close>: \<open>full() ? ++_capacity : _capacity\<close> increments the member when the
  array is full; the second loop is \<open>for (int i = index + 1; i <= _size; ++i)
  copy_arr[i] = _array[i - 1];\<close>
\<close>

definition insert_at :: "'a Array \<Rightarrow> int \<Rightarrow> 'a \<Rightarrow> error + 'a Array" where
  "insert_at a index v =
     (if \<not> index_in_bounds a index then Inl Index_out_of_bounds
      else let a1 = (if full a then a\<lparr>m_capacity := int_add (m_capacity a) 1\<rparr> else a);
               new_capacity = m_capacity a1;
               new_size = m_size a1 + 1 in
           bnd (new_arr new_capacity) (\<lambda>copy_arr.
           bnd (copy_loop 0 index 0 0 (m_array a1) copy_arr) (\<lambda>copy_arr.
           bnd (wr copy_arr index (Some v)) (\<lambda>copy_arr.
           bnd (copy_loop (index + 1) (m_size a1 + 1) 1 0 (m_array a1) copy_arr) (\<lambda>copy_arr.
           bnd (clear a1) (\<lambda>a2.
           grow (a2\<lparr>m_array := copy_arr, m_capacity := new_capacity,
                    m_size := new_size\<rparr>)))))))"

definition pop_back :: "'a Array \<Rightarrow> error + 'a Array" where
  "pop_back a = remove_at a (m_size a - 1) 1"

definition pop_front :: "'a Array \<Rightarrow> error + 'a Array" where
  "pop_front a = remove_at a 0 1"

text \<open>
  \<open>find\<close>: \<open>for (int i = 0; i < _size; ++i) if (_array[i] == value) return i;\<close> and
  \<open>-1\<close> after the loop.
\<close>

function find_loop :: "int \<Rightarrow> 'a Array \<Rightarrow> 'a \<Rightarrow> error + int" where
  "find_loop i a v =
     (if i < m_size a
      then bnd (rd (m_array a) i) (\<lambda>x.
           if x = Some v then Inr i else find_loop (i + 1) a v)
      else Inr (- 1))"
  by pat_completeness auto
termination
  by (relation "measure (\<lambda>(i, a, v). nat (m_size a - i))") auto

declare find_loop.simps [simp del]

definition find_arr :: "'a Array \<Rightarrow> 'a \<Rightarrow> error + int" where
  "find_arr a v = find_loop 0 a v"

definition remove :: "'a Array \<Rightarrow> 'a \<Rightarrow> error + 'a Array" where
  "remove a v =
     bnd (find_arr a v) (\<lambda>found_at.
     if found_at \<noteq> - 1 then remove_at a found_at 1 else Inr a)"

subsection \<open>States and operations\<close>

text \<open>
  The representation invariant of the specification, and the states in which \<open>_array\<close>
  points to a block of \<open>_capacity\<close> slots (every state but the one \<open>clear\<close> leaves).
\<close>

definition size_inv :: "'a Array \<Rightarrow> bool" where
  "size_inv a = (0 \<le> m_size a \<and> m_size a \<le> m_capacity a)"

definition allocated :: "'a Array \<Rightarrow> bool" where
  "allocated a = (case m_array a of None \<Rightarrow> False
                  | Some b \<Rightarrow> int (length b) = m_capacity a)"

definition well_formed :: "'a Array \<Rightarrow> bool" where
  "well_formed a = (size_inv a \<and> allocated a)"

text \<open>The element sequence: the first \<open>_size\<close> slots of the block.\<close>

definition elems :: "'a Array \<Rightarrow> 'a option list" where
  "elems a = (case m_array a of None \<Rightarrow> [] | Some b \<Rightarrow> take (nat (m_size a)) b)"

datatype 'a operation =
    Push 'a
  | Pop
  | Subscript int
  | Insert_at int 'a
  | Remove_at int int
  | Remove 'a
  | Resize int
  | Reverse
  | Clear

fun apply_operation :: "'a Array \<Rightarrow> 'a operation \<Rightarrow> error + 'a Array" where
  "apply_operation a (Push v) = push a v"
| "apply_operation a Pop = pop a"
| "apply_operation a (Subscript i) = bnd (subscript a i) (\<lambda>(a', _). Inr a')"
| "apply_operation a (Insert_at i v) = insert_at a i v"
| "apply_operation a (Remove_at i len) = remove_at a i len"
| "apply_operation a (Remove v) = remove a v"
| "apply_operation a (Resize n) = resize a n"
| "apply_operation a Reverse = reverse a"
| "apply_operation a Clear = clear a"

text \<open>Repeated \<open>push\<close>, in the order of the list.\<close>

fun push_all :: "'a Array \<Rightarrow> 'a list \<Rightarrow> error + 'a Array" where
  "push_all a [] = Inr a"
| "push_all a (v # vs) = bnd (push a v) (\<lambda>a'. push_all a' vs)"

section \<open>Properties of the building blocks\<close>

subsection \<open>Sequencing and division\<close>

lemma bnd_Inr [simp]: "bnd (Inr x) f = f x"
  by (simp add: bnd_def)

lemma bnd_Inl [simp]: "bnd (Inl e) f = Inl e"
  by (simp add: bnd_def)

lemma bnd_eq_Inr: "bnd m f = Inr y \<longleftrightarrow> (\<exists>x. m = Inr x \<and> f x = Inr y)"
  by (cases m) simp_all

lemma cdiv_nonneg: "0 \<le> a \<Longrightarrow> 0 < b \<Longrightarrow> cdiv a b = a div b"
  by (cases "a = 0") (simp_all add: cdiv_def)

subsection \<open>Arithmetic of \<open>int\<close>\<close>

lemma wrap_id: "is_int r \<Longrightarrow> wrap r = r"
  by (simp add: wrap_def is_int_def INT_MIN_def INT_MAX_def)

lemma wrap_high: "INT_MAX < r \<Longrightarrow> r \<le> INT_MAX + 4294967296 \<Longrightarrow> wrap r = r - 4294967296"
proof -
  assume a: "INT_MAX < r" "r \<le> INT_MAX + 4294967296"
  have "(r + 2147483648) mod 4294967296 = (r + 2147483648 - 4294967296) mod 4294967296"
    by (rule minus_mod_self2 [symmetric])
  also have "\<dots> = r + 2147483648 - 4294967296"
    using a by (simp add: INT_MAX_def)
  finally show ?thesis by (simp add: wrap_def)
qed

lemma wrap_low: "r < INT_MIN \<Longrightarrow> INT_MIN - 4294967296 \<le> r \<Longrightarrow> wrap r = r + 4294967296"
proof -
  assume a: "r < INT_MIN" "INT_MIN - 4294967296 \<le> r"
  have "(r + 2147483648) mod 4294967296 = (r + 2147483648 + 4294967296) mod 4294967296"
    by (rule mod_add_self2 [symmetric])
  also have "\<dots> = r + 2147483648 + 4294967296"
    using a by (simp add: INT_MIN_def)
  finally show ?thesis by (simp add: wrap_def)
qed

lemma wrap_is_int: "is_int (wrap r)"
  by (simp add: wrap_def is_int_def INT_MIN_def INT_MAX_def)

lemma int_add_is_int: "is_int x \<Longrightarrow> is_int y \<Longrightarrow> is_int (int_add x y)"
  by (simp add: int_add_def wrap_is_int)

lemma int_add_exact: "is_int (x + y) \<Longrightarrow> int_add x y = x + y"
  by (simp add: int_add_def wrap_id)

lemma int_mul_exact: "is_int (x * y) \<Longrightarrow> int_mul x y = x * y"
  by (simp add: int_mul_def wrap_id)

text \<open>A sum of two \<open>int\<close>s is exact or off by \<open>2^32\<close>, and so is the double of one.\<close>

lemma int_add_cases:
  "int_add x y = x + y \<or>
   (INT_MAX < x + y \<and> x + y \<le> 2 * INT_MAX \<and> int_add x y = x + y - 4294967296) \<or>
   (x + y < INT_MIN \<and> int_add x y = x + y + 4294967296)"
proof (cases "is_int x \<and> is_int y")
  case False
  then show ?thesis by (auto simp: int_add_def)
next
  case True
  then have b: "2 * INT_MIN \<le> x + y" "x + y \<le> 2 * INT_MAX" by (simp_all add: is_int_def)
  consider "is_int (x + y)" | "INT_MAX < x + y" | "x + y < INT_MIN"
    by (cases "INT_MAX < x + y"; cases "x + y < INT_MIN") (auto simp: is_int_def)
  then show ?thesis
  proof cases
    case 1
    then show ?thesis by (simp add: int_add_exact)
  next
    case 2
    then have "wrap (x + y) = x + y - 4294967296"
      using b by (intro wrap_high) (simp_all add: INT_MAX_def)
    with 2 b True show ?thesis by (simp add: int_add_def)
  next
    case 3
    then have "wrap (x + y) = x + y + 4294967296"
      using b by (intro wrap_low) (simp_all add: INT_MIN_def)
    with 3 True show ?thesis by (simp add: int_add_def)
  qed
qed

lemma int_mul_2_cases:
  "int_mul x 2 = x * 2 \<or>
   (is_int x \<and> INT_MAX < x * 2 \<and> int_mul x 2 = x * 2 - 4294967296) \<or>
   (is_int x \<and> x * 2 < INT_MIN \<and> int_mul x 2 = x * 2 + 4294967296)"
proof (cases "is_int x")
  case False
  then show ?thesis by (simp add: int_mul_def)
next
  case True
  then have b: "2 * INT_MIN \<le> x * 2" "x * 2 \<le> 2 * INT_MAX" by (simp_all add: is_int_def)
  have i2: "is_int 2" by (simp add: is_int_def INT_MIN_def INT_MAX_def)
  consider "is_int (x * 2)" | "INT_MAX < x * 2" | "x * 2 < INT_MIN"
    by (cases "INT_MAX < x * 2"; cases "x * 2 < INT_MIN") (auto simp: is_int_def)
  then show ?thesis
  proof cases
    case 1
    then show ?thesis by (simp add: int_mul_exact)
  next
    case 2
    then have "wrap (x * 2) = x * 2 - 4294967296"
      using b by (intro wrap_high) (simp_all add: INT_MAX_def)
    with 2 True i2 show ?thesis by (simp add: int_mul_def)
  next
    case 3
    then have "wrap (x * 2) = x * 2 + 4294967296"
      using b by (intro wrap_low) (simp_all add: INT_MIN_def)
    with 3 True i2 show ?thesis by (simp add: int_mul_def)
  qed
qed

lemma int_mul_2_valid: "0 < x \<Longrightarrow> 1 \<le> int_mul x 2 \<Longrightarrow> int_mul x 2 = x * 2"
  using int_mul_2_cases [of x] by (auto simp: is_int_def INT_MIN_def INT_MAX_def)

lemma int_mul_2_overflow: "is_int x \<Longrightarrow> INT_MAX < x * 2 \<Longrightarrow> int_mul x 2 < 1"
proof -
  assume x: "is_int x" and o: "INT_MAX < x * 2"
  have "wrap (x * 2) = x * 2 - 4294967296"
    using x o by (intro wrap_high) (simp_all add: is_int_def INT_MAX_def)
  then show ?thesis
    using x by (simp add: int_mul_def is_int_def INT_MIN_def INT_MAX_def)
qed

lemma int_mul_2_neq: "x \<noteq> 0 \<Longrightarrow> int_mul x 2 \<noteq> x"
  using int_mul_2_cases [of x] by (auto simp: is_int_def INT_MIN_def INT_MAX_def)

lemma int_sub_1_pos: "0 < x \<Longrightarrow> int_sub x 1 = x - 1"
  by (simp add: int_sub_def wrap_id is_int_def INT_MIN_def INT_MAX_def)

subsection \<open>The copying loop\<close>

text \<open>
  On blocks that are large enough the loop succeeds and overwrites exactly the slots
  \<open>i - doff, \<dots>, hi - doff - 1\<close> of the destination.
\<close>

lemma copy_loop_nth:
  "src = Some s \<Longrightarrow> dst = Some t \<Longrightarrow> i \<le> hi \<Longrightarrow> soff \<le> i \<Longrightarrow> hi - soff \<le> int (length s)
   \<Longrightarrow> doff \<le> i \<Longrightarrow> hi - doff \<le> int (length t)
   \<Longrightarrow> \<exists>t'. copy_loop i hi soff doff src dst = Inr (Some t') \<and> length t' = length t \<and>
        (\<forall>k < length t. t' ! k = (if i - doff \<le> int k \<and> int k < hi - doff
                                    then s ! nat (int k + doff - soff) else t ! k))"
proof (induction i hi soff doff src dst arbitrary: t rule: copy_loop.induct)
  case (1 i hi soff doff src dst)
  show ?case
  proof (cases "i < hi")
    case False
    with 1 show ?thesis by (auto simp: copy_loop.simps)
  next
    case True
    let ?x = "s ! nat (i - soff)"
    let ?u = "t[nat (i - doff) := ?x]"
    have r: "rd src (i - soff) = Inr ?x" using 1 True by (simp add: rd_def)
    have w: "wr dst (i - doff) ?x = Inr (Some ?u)" using 1 True by (simp add: wr_def)
    from "1.IH"[OF True, of "Some ?u" ?u] 1 True
    obtain t' where t': "copy_loop (i + 1) hi soff doff src (Some ?u) = Inr (Some t')"
      "length t' = length t"
      "\<forall>k < length t. t' ! k = (if i + 1 - doff \<le> int k \<and> int k < hi - doff
                                    then s ! nat (int k + doff - soff) else ?u ! k)"
      by auto
    have "copy_loop i hi soff doff src dst = Inr (Some t')"
      using True r w t'(1) by (subst copy_loop.simps) simp
    moreover have "\<forall>k < length t. t' ! k = (if i - doff \<le> int k \<and> int k < hi - doff
                                    then s ! nat (int k + doff - soff) else t ! k)"
    proof (intro allI impI)
      fix k assume k: "k < length t"
      show "t' ! k = (if i - doff \<le> int k \<and> int k < hi - doff
                                    then s ! nat (int k + doff - soff) else t ! k)"
      proof (cases "int k = i - doff")
        case True
        then have "nat (i - doff) = k" by simp
        moreover have "int k + doff - soff = i - soff" using True by simp
        ultimately show ?thesis using t'(3) k True \<open>i < hi\<close> by simp
      next
        case False
        then have "nat (i - doff) \<noteq> k" using 1 by auto
        then show ?thesis using t'(3) k False by auto
      qed
    qed
    ultimately show ?thesis using t'(2) by blast
  qed
qed

lemma copy_loop_list:
  assumes "i \<le> hi" "soff \<le> i" "hi - soff \<le> int (length s)" "doff \<le> i" "hi - doff \<le> int (length t)"
  shows "copy_loop i hi soff doff (Some s) (Some t) =
     Inr (Some (take (nat (i - doff)) t @ take (nat (hi - i)) (drop (nat (i - soff)) s)
                @ drop (nat (hi - doff)) t))"
proof -
  from copy_loop_nth[OF refl refl assms]
  obtain t' where t': "copy_loop i hi soff doff (Some s) (Some t) = Inr (Some t')"
    "length t' = length t"
    "\<forall>k < length t. t' ! k = (if i - doff \<le> int k \<and> int k < hi - doff
                                    then s ! nat (int k + doff - soff) else t ! k)"
    by blast
  define a where "a = nat (i - doff)"
  define n where "n = nat (hi - i)"
  define c where "c = nat (i - soff)"
  have an: "nat (hi - doff) = a + n" using assms by (simp add: a_def n_def)
  have a_le: "a + n \<le> length t" using assms by (simp add: a_def n_def)
  have c_le: "c + n \<le> length s" using assms by (simp add: c_def n_def)
  let ?r = "take a t @ take n (drop c s) @ drop (a + n) t"
  have l1: "length (take a t) = a" using a_le by simp
  have l2: "length (take n (drop c s)) = n" using c_le by simp
  have len: "length ?r = length t" using l1 l2 a_le by simp
  have "t' = ?r"
  proof (rule nth_equalityI)
    show "length t' = length ?r" using len t'(2) by simp
  next
    fix k assume "k < length t'"
    then have k: "k < length t" using t'(2) by simp
    then have tk: "t' ! k = (if i - doff \<le> int k \<and> int k < hi - doff
                                    then s ! nat (int k + doff - soff) else t ! k)"
      using t'(3) by blast
    consider (lo) "k < a" | (mid) "a \<le> k" "k < a + n" | (hi) "a + n \<le> k" by linarith
    then show "t' ! k = ?r ! k"
    proof cases
      case lo
      then have "\<not> i - doff \<le> int k" by (simp add: a_def)
      then have "t' ! k = t ! k" using tk by simp
      moreover have "?r ! k = t ! k" using lo l1 by (simp add: nth_append)
      ultimately show ?thesis by simp
    next
      case mid
      then have "i - doff \<le> int k \<and> int k < hi - doff" using assms by (simp add: a_def n_def) linarith
      then have "t' ! k = s ! nat (int k + doff - soff)" using tk by simp
      moreover have "nat (int k + doff - soff) = c + (k - a)" using mid assms by (simp add: a_def c_def)
      moreover have ka: "k - a < n" using mid by linarith
      moreover have "?r ! k = (take n (drop c s)) ! (k - a)"
        using mid l1 l2 ka by (simp add: nth_append)
      moreover have "(take n (drop c s)) ! (k - a) = s ! (c + (k - a))"
        using ka c_le by simp
      ultimately show ?thesis by simp
    next
      case hi
      then have "\<not> int k < hi - doff" using assms by (simp add: a_def n_def)
      then have "t' ! k = t ! k" using tk by simp
      moreover have "\<not> k < a" "\<not> k - a < n" using hi by linarith+
      moreover have "?r ! k = drop (a + n) t ! (k - a - n)"
        using calculation(2,3) l1 l2 by (simp add: nth_append)
      moreover have "drop (a + n) t ! (k - a - n) = t ! k" using hi k by simp
      ultimately show ?thesis by simp
    qed
  qed
  with t'(1) show ?thesis by (simp add: an a_def n_def c_def)
qed

text \<open>
  Conversely, a loop that returns normally has stayed inside the destination, and leaves a
  block of the same length.
\<close>

lemma copy_loop_Inr:
  "copy_loop i hi soff doff src dst = Inr r \<Longrightarrow> dst = Some t \<Longrightarrow>
     (\<exists>t'. r = Some t' \<and> length t' = length t) \<and>
     (i < hi \<longrightarrow> 0 \<le> i - soff \<and> 0 \<le> i - doff \<and> hi - doff \<le> int (length t))"
proof (induction i hi soff doff src dst arbitrary: t rule: copy_loop.induct)
  case (1 i hi soff doff src dst)
  show ?case
  proof (cases "i < hi")
    case False
    with 1(2,3) show ?thesis by (auto simp: copy_loop.simps)
  next
    case True
    from 1(2) True obtain x dst' where
      r: "rd src (i - soff) = Inr x" and
      w: "wr dst (i - doff) x = Inr dst'" and
      c: "copy_loop (i + 1) hi soff doff src dst' = Inr r"
      by (subst (asm) copy_loop.simps) (auto simp: bnd_eq_Inr)
    from r have s0: "0 \<le> i - soff"
      by (auto simp: rd_def split: option.splits if_splits)
    from w 1(3) have d0: "0 \<le> i - doff" "i - doff < int (length t)"
      and d': "dst' = Some (t[nat (i - doff) := x])"
      by (auto simp: wr_def split: if_splits)
    from "1.IH" [OF True c d'] have
      ih: "\<exists>t'. r = Some t' \<and> length t' = length t"
        "i + 1 < hi \<longrightarrow> hi - doff \<le> int (length t)" by simp_all
    have "hi - doff \<le> int (length t)"
    proof (cases "i + 1 < hi")
      case True
      with ih(2) show ?thesis by simp
    next
      case False
      with \<open>i < hi\<close> have "hi = i + 1" by simp
      with d0(2) show ?thesis by simp
    qed
    with ih(1) s0 d0(1) show ?thesis by simp
  qed
qed

subsection \<open>Reallocation: \<open>resize\<close>, \<open>grow\<close>, \<open>shrink\<close>\<close>

lemma wfE:
  assumes "well_formed a"
  obtains b where "m_array a = Some b" "int (length b) = m_capacity a"
    "0 \<le> m_size a" "m_size a \<le> m_capacity a"
  using assms by (auto simp: well_formed_def size_inv_def allocated_def split: option.splits)

lemma clear_eq: "clear a = Inr (a\<lparr>m_array := None, m_size := 0\<rparr>)"
  by (simp add: clear_def set_size_def is_valid_size_def)

lemma resize_wf:
  assumes "well_formed a" "1 \<le> n"
  shows "\<exists>a'. resize a n = Inr a' \<and> well_formed a' \<and> m_capacity a' = n \<and>
           m_size a' = min n (m_size a) \<and> elems a' = take (nat (min n (m_size a))) (elems a)"
proof (cases "n = m_capacity a")
  case True
  then show ?thesis using assms
    by (auto simp: resize_def is_valid_capacity_def well_formed_def size_inv_def elems_def min_def split: option.splits)
next
  case False
  from assms(1) obtain b where b: "m_array a = Some b" "int (length b) = m_capacity a"
    "0 \<le> m_size a" "m_size a \<le> m_capacity a" by (rule wfE)
  define cl where "cl = min n (m_size a)"
  have cl: "0 \<le> cl" "cl \<le> n" "cl \<le> m_size a" "cl \<le> int (length b)"
    using assms b by (auto simp: cl_def)
  have cp: "copy_loop 0 cl 0 0 (Some b) (Some (replicate (nat n) None)) =
      Inr (Some (take (nat cl) b @ drop (nat cl) (replicate (nat n) None)))"
    using copy_loop_list[of 0 cl 0 b 0 "replicate (nat n) None"] cl assms(2) by simp
  let ?a' = "a\<lparr>m_array := Some (take (nat cl) b @ drop (nat cl) (replicate (nat n) None)),
               m_capacity := n, m_size := cl\<rparr>"
  have "resize a n = Inr ?a'"
    using False assms(2) b(1) cp
    by (simp add: resize_def is_valid_capacity_def new_arr_def clear_eq cl_def[symmetric])
  moreover have "well_formed ?a'" using cl assms(2)
    by (auto simp: well_formed_def size_inv_def allocated_def min_def)
  moreover have "elems ?a' = take (nat cl) (elems a)"
    using cl b by (auto simp: elems_def min_def)
  ultimately show ?thesis by (simp add: cl_def)
qed

lemma length_elems: "well_formed a \<Longrightarrow> length (elems a) = nat (m_size a)"
  by (auto simp: well_formed_def size_inv_def allocated_def elems_def split: option.splits)

lemma resize_realloc:
  assumes "well_formed a" "1 \<le> n" "n \<noteq> m_capacity a"
  shows "resize a n = Inr (a\<lparr>m_array := Some (take (nat (min n (m_size a))) (elems a) @
                                  replicate (nat (n - min n (m_size a))) None),
                         m_capacity := n, m_size := min n (m_size a)\<rparr>)"
proof -
  from assms(1) obtain b where b: "m_array a = Some b" "int (length b) = m_capacity a"
    "0 \<le> m_size a" "m_size a \<le> m_capacity a" by (rule wfE)
  define cl where "cl = min n (m_size a)"
  have cl: "0 \<le> cl" "cl \<le> n" "cl \<le> m_size a" "cl \<le> int (length b)"
    using assms b by (auto simp: cl_def)
  have cp: "copy_loop 0 cl 0 0 (Some b) (Some (replicate (nat n) None)) =
      Inr (Some (take (nat cl) b @ replicate (nat (n - cl)) None))"
    using copy_loop_list[of 0 cl 0 b 0 "replicate (nat n) None"] cl assms(2)
    by (simp add: nat_diff_distrib)
  have "take (nat cl) (elems a) = take (nat cl) b"
    using cl b by (auto simp: elems_def min_def)
  then show ?thesis
    using assms(2,3) b(1) cp
    by (simp add: resize_def is_valid_capacity_def new_arr_def clear_eq cl_def[symmetric])
qed

lemma grow_wf:
  assumes "well_formed a" "full a \<Longrightarrow> m_capacity a * 2 \<le> INT_MAX"
  shows "\<exists>a'. grow a = Inr a' \<and> well_formed a' \<and> m_size a' = m_size a \<and> elems a' = elems a \<and>
           m_capacity a' = (if full a then (if m_capacity a = 0 then 1 else m_capacity a * 2)
                            else m_capacity a)"
proof (cases "full a")
  case False
  then show ?thesis using assms by (simp add: grow_def)
next
  case True
  from assms(1) obtain b where b: "m_array a = Some b" "int (length b) = m_capacity a"
    "0 \<le> m_size a" "m_size a \<le> m_capacity a" by (rule wfE)
  define n where "n = (if m_capacity a = 0 then 1 else m_capacity a * 2)"
  have n: "1 \<le> n" "m_size a \<le> n" using b by (auto simp: n_def)
  have "is_int (m_capacity a * 2)"
    using assms(2) [OF True] b by (simp add: is_int_def INT_MIN_def)
  then have m: "int_mul (m_capacity a) 2 = m_capacity a * 2" by (rule int_mul_exact)
  from resize_wf[OF assms(1) n(1)] n(2) b(3) obtain a' where
    "resize a n = Inr a'" "well_formed a'" "m_capacity a' = n" "m_size a' = m_size a"
    "elems a' = take (nat (m_size a)) (elems a)" by (auto simp: min_def)
  moreover have "take (nat (m_size a)) (elems a) = elems a" using b by (simp add: elems_def)
  ultimately show ?thesis using True by (auto simp: grow_def n_def m)
qed

lemma shrink_wf:
  assumes "well_formed a"
  shows "\<exists>a'. shrink a = Inr a' \<and> well_formed a' \<and> m_size a' = m_size a \<and> elems a' = elems a \<and>
           m_capacity a' = (if m_size a < m_capacity a div 4 then m_capacity a div 2
                            else m_capacity a)"
proof -
  from assms obtain b where b: "m_array a = Some b" "int (length b) = m_capacity a"
    "0 \<le> m_size a" "m_size a \<le> m_capacity a" by (rule wfE)
  have c0: "0 \<le> m_capacity a" using b by simp
  have d: "cdiv (m_capacity a) 4 = m_capacity a div 4" "cdiv (m_capacity a) 2 = m_capacity a div 2"
    using c0 by (simp_all add: cdiv_nonneg)
  show ?thesis
  proof (cases "m_size a < m_capacity a div 4")
    case False
    then show ?thesis using assms d by (simp add: shrink_def)
  next
    case True
    define n where "n = m_capacity a div 2"
    have n: "1 \<le> n" "m_size a \<le> n" using b True by (auto simp: n_def)
    from resize_wf[OF assms n(1)] n(2) b(3) obtain a' where
      "resize a n = Inr a'" "well_formed a'" "m_capacity a' = n" "m_size a' = m_size a"
      "elems a' = take (nat (m_size a)) (elems a)" by (auto simp: min_def)
    moreover have "take (nat (m_size a)) (elems a) = elems a" using b by (simp add: elems_def)
    ultimately show ?thesis using True d by (simp add: shrink_def n_def)
  qed
qed

subsection \<open>Positional insert and remove on well-formed arrays\<close>

lemma insert_at_wf:
  assumes "well_formed a" "0 \<le> i" "i < m_size a"
    "m_size a + 1 < m_capacity a \<or> 2 * (m_size a + 1) \<le> INT_MAX"
  shows "\<exists>a'. insert_at a i v = Inr a' \<and> well_formed a' \<and> m_size a' = m_size a + 1 \<and>
           elems a' = take (nat i) (elems a) @ Some v # drop (nat i) (elems a) \<and>
           m_capacity a' = (if full a then 2 * (m_capacity a + 1)
                            else if m_size a + 1 = m_capacity a then 2 * m_capacity a
                            else m_capacity a)"
proof -
  from assms(1) obtain b where b: "m_array a = Some b" "int (length b) = m_capacity a"
    "0 \<le> m_size a" "m_size a \<le> m_capacity a" by (rule wfE)
  define a1 where "a1 = (if full a then a\<lparr>m_capacity := int_add (m_capacity a) 1\<rparr> else a)"
  define nc where "nc = m_capacity a1"
  define k where "k = nat i"
  define n where "n = nat (m_size a)"
  define c where "c = nat nc"
  have a1: "m_array a1 = Some b" "m_size a1 = m_size a" using b by (simp_all add: a1_def)
  have "int_add (m_capacity a) 1 = m_capacity a + 1" if "full a"
  proof -
    from that assms(4) b have "is_int (m_capacity a + 1)"
      by (auto simp: full_def is_int_def INT_MIN_def)
    then show ?thesis by (rule int_add_exact)
  qed
  then have ncv: "nc = (if full a then m_capacity a + 1 else m_capacity a)"
    by (simp add: nc_def a1_def)
  have nc: "m_size a + 1 \<le> nc" using b by (auto simp: ncv full_def)
  have kn: "k < n" "n \<le> length b" "n + 1 \<le> c" "i = int k" "m_size a = int n" "nc = int c"
    using assms b nc by (simp_all add: k_def n_def c_def)
  define t0 :: "'a option list" where "t0 = replicate c None"
  define t1 where "t1 = take k b @ drop k t0"
  define t2 where "t2 = t1[k := Some v]"
  define t3 where "t3 = take (k + 1) t2 @ take (n - k) (drop k b) @ drop (n + 1) t2"
  have len: "length t0 = c" "length t1 = c" "length t2 = c" "length t3 = c"
    using kn by (simp_all add: t0_def t1_def t2_def t3_def)
  have new: "(new_arr nc :: error + 'a ptr) = Inr (Some t0)"
    using kn by (simp add: new_arr_def t0_def)
  have l1: "copy_loop 0 i 0 0 (Some b) (Some t0) = Inr (Some t1)"
    using copy_loop_list[of 0 i 0 b 0 t0] kn len by (simp add: t1_def)
  have w: "wr (Some t1) i (Some v) = Inr (Some t2)"
    using kn len by (simp add: wr_def t2_def)
  have l2: "copy_loop (i + 1) (m_size a + 1) 1 0 (Some b) (Some t2) = Inr (Some t3)"
    using copy_loop_list[of "i + 1" "m_size a + 1" 1 b 0 t2] kn len
    by (simp add: t3_def nat_add_distrib nat_diff_distrib)
  define a3 where "a3 = a1\<lparr>m_array := Some t3, m_size := m_size a + 1\<rparr>"
  have c3: "m_capacity a3 = nc" "m_size a3 = m_size a + 1" "m_array a3 = Some t3"
    by (simp_all add: a3_def nc_def)
  have ins: "insert_at a i v = grow a3"
    using assms(2,3) a1 new l1 w l2
    by (simp add: insert_at_def index_in_bounds_def Let_def a1_def[symmetric] nc_def[symmetric]
        clear_eq a3_def)
  have wf3: "well_formed a3" using kn len c3
    by (simp add: well_formed_def size_inv_def allocated_def)
  have "take (n + 1) t3 = take k b @ Some v # take (n - k) (drop k b)"
    using kn len by (simp add: t3_def t2_def t1_def take_Suc_conv_app_nth Suc_diff_le)
  then have el3: "elems a3 = take k (elems a) @ Some v # drop k (elems a)"
    using kn b c3 by (simp add: elems_def nat_add_distrib drop_take min_def)
  have f3: "full a3 \<longleftrightarrow> full a \<or> m_size a + 1 = m_capacity a"
    using b c3 by (auto simp: full_def ncv)
  have "m_capacity a3 * 2 \<le> INT_MAX" if "full a3"
    using that f3 assms(4) c3 by (auto simp: full_def ncv)
  from grow_wf[OF wf3 this] obtain a' where a': "grow a3 = Inr a'" "well_formed a'"
    "m_size a' = m_size a3" "elems a' = elems a3"
    "m_capacity a' = (if full a3 then (if m_capacity a3 = 0 then 1 else m_capacity a3 * 2)
                            else m_capacity a3)" by blast
  from c3 a' ins el3 f3 nc b show ?thesis by (auto simp: ncv k_def full_def)
qed

lemma remove_at_wf:
  assumes "well_formed a" "0 \<le> i" "1 \<le> len" "i + len \<le> m_size a" "m_size a \<le> INT_MAX"
  shows "\<exists>a'. remove_at a i len = Inr a' \<and> well_formed a' \<and> m_size a' = m_size a - len \<and>
           elems a' = take (nat i) (elems a) @ drop (nat (i + len)) (elems a) \<and>
           m_capacity a' = (if m_size a - len < m_capacity a div 4 then m_capacity a div 2
                            else m_capacity a)"
proof -
  from assms(1) obtain b where b: "m_array a = Some b" "int (length b) = m_capacity a"
    "0 \<le> m_size a" "m_size a \<le> m_capacity a" by (rule wfE)
  define k where "k = nat i"
  define l where "l = nat len"
  define n where "n = nat (m_size a)"
  define c where "c = nat (m_capacity a)"
  have kn: "k + l \<le> n" "1 \<le> l" "n \<le> c" "length b = c" "i = int k" "len = int l"
    "m_size a = int n" "m_capacity a = int c"
    using assms b by (simp_all add: k_def l_def n_def c_def)
  define t0 :: "'a option list" where "t0 = replicate c None"
  define t1 where "t1 = take k b @ drop k t0"
  define t2 where "t2 = take k t1 @ take (n - k - l) (drop (k + l) b) @ drop (n - l) t1"
  have len: "length t0 = c" "length t1 = c" "length t2 = c"
    using kn by (simp_all add: t0_def t1_def t2_def)
  have new: "(new_arr (m_capacity a) :: error + 'a ptr) = Inr (Some t0)"
    using kn by (simp add: new_arr_def t0_def)
  have l1: "copy_loop 0 i 0 0 (Some b) (Some t0) = Inr (Some t1)"
    using copy_loop_list[of 0 i 0 b 0 t0] kn len by (simp add: t1_def)
  have l2: "copy_loop (i + (len - 1) + 1) (m_size a) 0 len (Some b) (Some t1) = Inr (Some t2)"
    using copy_loop_list[of "i + len" "m_size a" 0 b len t1] kn len
    by (simp add: t2_def nat_add_distrib nat_diff_distrib)
  define a3 where "a3 = a\<lparr>m_array := Some t2, m_size := m_size a - len\<rparr>"
  have c3: "m_capacity a3 = m_capacity a" "m_size a3 = m_size a - len" "m_array a3 = Some t2"
    by (simp_all add: a3_def)
  have "is_int (i + (len - 1))"
    using assms(2,3,4,5) by (simp add: is_int_def INT_MIN_def)
  then have e: "int_add i (int_sub len 1) = i + (len - 1)"
    using assms(3) by (simp add: int_sub_1_pos int_add_exact)
  have rm: "remove_at a i len = shrink a3"
    using assms(2,3,4) b(1) new l1 l2
    by (simp add: remove_at_def index_in_bounds_def Let_def clear_eq a3_def e)
  have wf3: "well_formed a3" using kn len c3
    by (simp add: well_formed_def size_inv_def allocated_def)
  have "take (n - l) t2 = take k b @ take (n - k - l) (drop (k + l) b)"
    using kn len by (simp add: t2_def t1_def add.commute)
  then have el3: "elems a3 = take k (elems a) @ drop (k + l) (elems a)"
    using kn b c3 by (simp add: elems_def nat_diff_distrib drop_take min_def)
  from shrink_wf[OF wf3] obtain a' where a': "shrink a3 = Inr a'" "well_formed a'"
    "m_size a' = m_size a3" "elems a' = elems a3"
    "m_capacity a' = (if m_size a3 < m_capacity a3 div 4 then m_capacity a3 div 2
                            else m_capacity a3)" by blast
  have nk: "nat i = k" "nat (i + len) = k + l" using kn(5,6) by simp_all
  show ?thesis
    by (rule exI[of _ a']) (simp add: rm a' c3 el3 nk)
qed

subsection \<open>Construction and \<open>push\<close>\<close>

lemma Array_new_1: "Array_new 1 = Inr \<lparr>m_capacity = 1, m_size = 0, m_array = Some [None]\<rparr>"
  by (simp add: Array_new_def set_capacity_def set_size_def is_valid_capacity_def
        is_valid_size_def new_arr_def)

lemma push_wf:
  assumes "size_inv a" "allocated a \<or> m_capacity a = 0"
    "full a \<Longrightarrow> m_capacity a * 2 \<le> INT_MAX"
  shows "\<exists>a'. push a v = Inr a' \<and> well_formed a' \<and> m_size a' = m_size a + 1 \<and>
           elems a' = elems a @ [Some v] \<and>
           m_capacity a' = (if full a then (if m_capacity a = 0 then 1 else m_capacity a * 2)
                            else m_capacity a)"
proof -
  let ?c = "if full a then (if m_capacity a = 0 then 1 else m_capacity a * 2) else m_capacity a"
  have "\<exists>a1. (if full a then grow a else Inr a) = Inr a1 \<and> well_formed a1 \<and>
          m_size a1 = m_size a \<and> elems a1 = elems a \<and> m_capacity a1 = ?c"
  proof (cases "allocated a")
    case True
    then have w: "well_formed a" using assms(1) by (simp add: well_formed_def)
    from grow_wf[OF w assms(3)] w show ?thesis by (cases "full a") auto
  next
    case False
    with assms have z: "m_capacity a = 0" "m_size a = 0" by (auto simp: size_inv_def)
    have "grow a = Inr (a\<lparr>m_array := Some [None], m_capacity := 1, m_size := 0\<rparr>)"
      using z by (simp add: grow_def full_def resize_def is_valid_capacity_def new_arr_def
          copy_loop.simps clear_eq)
    moreover have "elems a = []" using z by (simp add: elems_def split: option.splits)
    ultimately show ?thesis using z
      by (simp add: full_def well_formed_def size_inv_def allocated_def elems_def)
  qed
  then obtain a1 where a1: "(if full a then grow a else Inr a) = Inr a1" "well_formed a1"
    "m_size a1 = m_size a" "elems a1 = elems a" "m_capacity a1 = ?c" by blast
  from a1(2) obtain b where b: "m_array a1 = Some b" "int (length b) = m_capacity a1"
    "0 \<le> m_size a1" "m_size a1 \<le> m_capacity a1" by (rule wfE)
  have lt: "m_size a1 < m_capacity a1"
    using a1(3,5) assms(1) by (auto simp: full_def size_inv_def split: if_splits)
  define n where "n = nat (m_size a1)"
  have n: "m_size a1 = int n" "n < length b" using b lt by (simp_all add: n_def)
  let ?a' = "a1\<lparr>m_array := Some (b[n := Some v]), m_size := m_size a1 + 1\<rparr>"
  have "push a v = Inr ?a'"
    using a1(1) b(1) n by (simp add: push_def wr_def)
  moreover have "well_formed ?a'" using b lt
    by (simp add: well_formed_def size_inv_def allocated_def)
  moreover have "elems ?a' = elems a1 @ [Some v]"
    using n b(1) by (simp add: elems_def nat_add_distrib take_Suc_conv_app_nth)
  ultimately show ?thesis using a1(3,4,5) by simp
qed

subsection \<open>The size invariant, operation by operation\<close>

text \<open>
  These hold in every state, whatever \<open>_array\<close> points to: a call that returns
  normally leaves \<open>0 \<le> _size \<le> _capacity\<close> if it found it.
\<close>

lemma resize_result:
  assumes "resize a n = Inr a'"
  shows "m_capacity a' = n \<and> (m_size a' = m_size a \<or> m_size a' = min n (m_size a)) \<and> 1 \<le> n"
  using assms
  by (auto simp: resize_def bnd_eq_Inr clear_eq Let_def is_valid_capacity_def split: if_splits)

lemma resize_inv:
  assumes "size_inv a" "resize a n = Inr a'"
  shows "size_inv a'"
  using assms
  by (auto simp: resize_def bnd_eq_Inr clear_eq Let_def is_valid_capacity_def size_inv_def split: if_splits)

lemma grow_inv: "size_inv a \<Longrightarrow> grow a = Inr a' \<Longrightarrow> size_inv a'"
  by (auto simp: grow_def Let_def dest: resize_inv split: if_splits)

lemma shrink_inv: "size_inv a \<Longrightarrow> shrink a = Inr a' \<Longrightarrow> size_inv a'"
  by (auto simp: shrink_def dest: resize_inv split: if_splits)

lemma resize_allocated:
  assumes "resize a n = Inr a'" "n \<noteq> m_capacity a"
  shows "allocated a'"
proof -
  from assms obtain p where n: "1 \<le> n"
    and c: "copy_loop 0 (min n (m_size a)) 0 0 (m_array a) (Some (replicate (nat n) None)) = Inr p"
    and a': "a' = a\<lparr>m_array := p, m_capacity := n, m_size := min n (m_size a)\<rparr>"
    by (auto simp: resize_def bnd_eq_Inr clear_eq Let_def is_valid_capacity_def new_arr_def
        split: if_splits)
  from copy_loop_Inr [OF c refl] obtain t where "p = Some t" "length t = nat n" by auto
  with a' n show ?thesis by (simp add: allocated_def)
qed

lemma grow_result:
  assumes "grow a = Inr a'" "0 \<le> m_capacity a"
  shows "m_capacity a' =
      (if full a then (if m_capacity a = 0 then 1 else m_capacity a * 2) else m_capacity a)"
proof (cases "full a \<and> m_capacity a \<noteq> 0")
  case False
  with assms(1) show ?thesis
    by (auto simp: grow_def Let_def dest: resize_result split: if_splits)
next
  case True
  with assms(1) have r: "resize a (int_mul (m_capacity a) 2) = Inr a'"
    by (simp add: grow_def)
  from resize_result [OF r] have "m_capacity a' = int_mul (m_capacity a) 2"
    "1 \<le> int_mul (m_capacity a) 2" by simp_all
  moreover from True assms(2) have "0 < m_capacity a" by simp
  ultimately show ?thesis using True by (simp add: int_mul_2_valid)
qed

lemma push_inv: "size_inv a \<Longrightarrow> push a v = Inr a' \<Longrightarrow> size_inv a'"
proof -
  assume i: "size_inv a" and p: "push a v = Inr a'"
  from p obtain a1 p1 where a1: "(if full a then grow a else Inr a) = Inr a1"
    and w: "wr (m_array a1) (m_size a1) (Some v) = Inr p1"
    and a': "a' = a1\<lparr>m_array := p1, m_size := m_size a1 + 1\<rparr>"
    by (auto simp: push_def bnd_eq_Inr)
  show ?thesis
  proof (cases "full a")
    case False
    with a1 have "a1 = a" by simp
    with i False a' show ?thesis by (auto simp: size_inv_def full_def)
  next
    case True
    define n where "n = (if m_capacity a = 0 then 1 else int_mul (m_capacity a) 2)"
    from True a1 have r: "resize a n = Inr a1" by (simp add: grow_def n_def)
    have "n \<noteq> m_capacity a" by (simp add: n_def int_mul_2_neq)
    from resize_allocated [OF r this] w have "m_size a1 < m_capacity a1"
      by (auto simp: allocated_def wr_def split: option.splits if_splits)
    moreover from resize_inv [OF i r] have "0 \<le> m_size a1" by (simp add: size_inv_def)
    ultimately show ?thesis using a' by (simp add: size_inv_def)
  qed
qed

lemma pop_inv: "size_inv a \<Longrightarrow> pop a = Inr a' \<Longrightarrow> size_inv a'"
proof -
  assume i: "size_inv a" and p: "pop a = Inr a'"
  from p obtain p1 where "shrink (a\<lparr>m_array := p1\<rparr>) = Inr a'"
    by (auto simp: pop_def bnd_eq_Inr split: if_splits)
  moreover have "size_inv (a\<lparr>m_array := p1\<rparr>)" using i by (simp add: size_inv_def)
  ultimately show ?thesis by (rule shrink_inv[rotated])
qed

lemma subscript_inv: "size_inv a \<Longrightarrow> subscript a i = Inr (a', j) \<Longrightarrow> size_inv a'"
  by (auto simp: subscript_def Let_def bnd_eq_Inr size_inv_def full_def split: if_splits)

text \<open>
  What a normal return of \<open>insert_at\<close> and of \<open>remove_at\<close> tells: the loops have stayed
  inside the new block, so that no sum has overflowed on the way.
\<close>

lemma insert_at_Inr:
  assumes "insert_at a i v = Inr a'"
  shows "\<exists>p nc. 0 \<le> i \<and> i < m_size a \<and>
           nc = (if full a then int_add (m_capacity a) 1 else m_capacity a) \<and>
           m_size a + 1 \<le> nc \<and>
           grow (a\<lparr>m_array := p, m_capacity := nc, m_size := m_size a + 1\<rparr>) = Inr a'"
proof -
  define nc where "nc = (if full a then int_add (m_capacity a) 1 else m_capacity a)"
  define a1 where "a1 = (if full a then a\<lparr>m_capacity := int_add (m_capacity a) 1\<rparr> else a)"
  have a1: "m_capacity a1 = nc" "m_size a1 = m_size a" "m_array a1 = m_array a"
    by (simp_all add: a1_def nc_def)
  from assms obtain c0 c1 c2 c3 where i: "0 \<le> i" "i < m_size a"
    and n': "new_arr (m_capacity a1) = Inr c0"
    and l1': "copy_loop 0 i 0 0 (m_array a1) c0 = Inr c1"
    and w: "wr c1 i (Some v) = Inr c2"
    and l2': "copy_loop (i + 1) (m_size a1 + 1) 1 0 (m_array a1) c2 = Inr c3"
    and g': "grow (a1\<lparr>m_array := c3, m_capacity := m_capacity a1, m_size := m_size a1 + 1\<rparr>)
        = Inr a'"
    by (auto simp: insert_at_def bnd_eq_Inr clear_eq Let_def a1_def[symmetric]
        index_in_bounds_def split: if_splits)
  note n = n' [unfolded a1] and l1 = l1' [unfolded a1] and l2 = l2' [unfolded a1]
    and g = g' [unfolded a1]
  from n have c0: "c0 = Some (replicate (nat nc) None)" "0 \<le> nc"
    by (auto simp: new_arr_def split: if_splits)
  from copy_loop_Inr [OF l1 c0(1)] obtain t1 where t1: "c1 = Some t1" "length t1 = nat nc"
    by auto
  from w t1 obtain t2 where t2: "c2 = Some t2" "length t2 = nat nc"
    by (auto simp: wr_def split: if_splits)
  from copy_loop_Inr [OF l2 t2(1)] i t2(2) have "m_size a + 1 \<le> int (nat nc)" by simp
  with c0(2) have le: "m_size a + 1 \<le> nc" by simp
  have "a1\<lparr>m_array := c3, m_capacity := nc, m_size := m_size a + 1\<rparr>
      = a\<lparr>m_array := c3, m_capacity := nc, m_size := m_size a + 1\<rparr>"
    by (simp add: a1_def)
  with g i le show ?thesis unfolding nc_def by auto
qed

lemma insert_at_size_in_range:
  assumes "insert_at a i v = Inr a'" "m_capacity a \<le> INT_MAX"
  shows "m_size a + 1 \<le> INT_MAX"
proof -
  from insert_at_Inr [OF assms(1)] have
    le: "m_size a + 1 \<le> (if full a then int_add (m_capacity a) 1 else m_capacity a)"
    and i: "0 \<le> i" "i < m_size a" by auto
  show ?thesis
  proof (cases "full a")
    case False
    with le assms(2) show ?thesis by simp
  next
    case True
    with i assms(2) have "is_int (m_capacity a)" "is_int 1"
      by (simp_all add: full_def is_int_def INT_MIN_def INT_MAX_def)
    then have "is_int (int_add (m_capacity a) 1)" by (rule int_add_is_int)
    with True le show ?thesis by (simp add: is_int_def)
  qed
qed

lemma insert_at_inv: "size_inv a \<Longrightarrow> insert_at a i v = Inr a' \<Longrightarrow> size_inv a'"
proof -
  assume i: "size_inv a" and p: "insert_at a i v = Inr a'"
  from insert_at_Inr [OF p] obtain p1 nc where le: "m_size a + 1 \<le> nc"
    and g: "grow (a\<lparr>m_array := p1, m_capacity := nc, m_size := m_size a + 1\<rparr>) = Inr a'"
    by blast
  have "size_inv (a\<lparr>m_array := p1, m_capacity := nc, m_size := m_size a + 1\<rparr>)"
    using i le by (simp add: size_inv_def)
  then show ?thesis using g by (rule grow_inv)
qed

lemma remove_at_Inr:
  assumes "remove_at a i len = Inr a'" "len \<noteq> 0"
  shows "\<exists>p. 0 \<le> i \<and> i < m_size a \<and> 0 < len \<and> len \<le> m_size a \<and>
           shrink (a\<lparr>m_array := p, m_size := m_size a - len\<rparr>) = Inr a'"
proof -
  define e where "e = int_add i (len - 1)"
  from assms obtain c0 c1 c2 where i: "0 \<le> i" "i < m_size a" and len: "0 < len"
    and e: "e < m_size a"
    and n: "new_arr (m_capacity a) = Inr c0"
    and l1: "copy_loop 0 i 0 0 (m_array a) c0 = Inr c1"
    and l2: "copy_loop (e + 1) (m_size a) 0 len (m_array a) c1 = Inr c2"
    and g: "shrink (a\<lparr>m_array := c2, m_size := m_size a - len\<rparr>) = Inr a'"
    by (cases "0 < len")
      (auto simp: remove_at_def bnd_eq_Inr clear_eq Let_def index_in_bounds_def e_def
        int_sub_1_pos split: if_splits)
  from n have c0: "c0 = Some (replicate (nat (m_capacity a)) None)"
    by (auto simp: new_arr_def split: if_splits)
  from copy_loop_Inr [OF l1 c0] obtain t1 where t1: "c1 = Some t1" by auto
  have "len \<le> m_size a"
  proof (cases "e + 1 < m_size a")
    case True
    with copy_loop_Inr [OF l2 t1] have "0 \<le> e + 1 - len" by simp
    with True show ?thesis by simp
  next
    case False
    with e have "e = m_size a - 1" by simp
    with int_add_cases [of i "len - 1"] i len show ?thesis
      by (auto simp: e_def INT_MIN_def INT_MAX_def)
  qed
  with g i len show ?thesis by auto
qed

lemma remove_at_inv: "size_inv a \<Longrightarrow> remove_at a i len = Inr a' \<Longrightarrow> size_inv a'"
proof -
  assume i: "size_inv a" and p: "remove_at a i len = Inr a'"
  show ?thesis
  proof (cases "len = 0")
    case True
    with p i show ?thesis by (auto simp: remove_at_def split: if_splits)
  next
    case False
    from remove_at_Inr [OF p False] obtain p1 where
      g: "shrink (a\<lparr>m_array := p1, m_size := m_size a - len\<rparr>) = Inr a'"
      and b: "0 < len" "len \<le> m_size a" by blast
    have "size_inv (a\<lparr>m_array := p1, m_size := m_size a - len\<rparr>)"
      using i b by (auto simp: size_inv_def)
    then show ?thesis using g by (rule shrink_inv)
  qed
qed

text \<open>
  The overflow of \<open>index + (length - 1)\<close>: \<open>remove_at(2, INT_MAX)\<close> on the array
  \<open>[1, 3, 4]\<close> passes the length check with a negative \<open>end_delete_idx\<close>, and the second
  loop reads below the block.
\<close>

lemma remove_at_length_overflow:
  "remove_at \<lparr>m_capacity = 4, m_size = 3,
               m_array = Some [Some (1::int), Some 3, Some 4, None]\<rparr> 2 2147483647
     = Inl Undefined_behaviour"
  by (simp add: remove_at_def index_in_bounds_def int_add_def int_sub_def is_int_def
      INT_MIN_def INT_MAX_def wrap_def new_arr_def copy_loop.simps rd_def wr_def
      eval_nat_numeral)

lemma remove_inv: "size_inv a \<Longrightarrow> remove a v = Inr a' \<Longrightarrow> size_inv a'"
  by (auto simp: remove_def bnd_eq_Inr dest: remove_at_inv split: if_splits)

lemma reverse_inv: "size_inv a \<Longrightarrow> reverse a = Inr a' \<Longrightarrow> size_inv a'"
  by (auto simp: reverse_def bnd_eq_Inr Let_def size_inv_def split: if_splits)

lemma clear_inv: "size_inv a \<Longrightarrow> clear a = Inr a' \<Longrightarrow> size_inv a'"
  by (auto simp: clear_eq size_inv_def)

lemma Array_new_inv: "Array_new c = Inr a \<Longrightarrow> size_inv a"
  by (auto simp: Array_new_def set_capacity_def set_size_def is_valid_capacity_def
      is_valid_size_def new_arr_def size_inv_def split: if_splits)

section \<open>The claims\<close>

text \<open>
  The example states used below: a fresh \<open>Array(1)\<close> is
  \<open>\<lparr>m_capacity = 1, m_size = 0, m_array = Some [None]\<rparr>\<close>, and after \<open>push(7)\<close> it is
  \<open>\<lparr>m_capacity = 1, m_size = 1, m_array = Some [Some 7]\<rparr>\<close>.
\<close>

subsection \<open>C1\<close>

text \<open>
  Claim C1 says that \<open>insert_at\<close> accepts \<open>index == size\<close>. The source guards
  \<open>insert_at\<close> with \<open>index_in_bounds\<close>, the check of the reads: on an array of capacity 2
  holding the single element 5, \<open>insert_at(1, 7)\<close> throws \<open>std::out_of_range\<close>.
\<close>

theorem insert_at_append_position_counterexample:
  "well_formed \<lparr>m_capacity = 2, m_size = 1, m_array = Some [Some (5::int), None]\<rparr> \<and>
   (0::int) \<le> 1 \<and>
   1 \<le> size_arr \<lparr>m_capacity = 2, m_size = 1, m_array = Some [Some (5::int), None]\<rparr> \<and>
   insert_at \<lparr>m_capacity = 2, m_size = 1, m_array = Some [Some (5::int), None]\<rparr> 1 7
     = Inl Index_out_of_bounds"
  by (simp add: insert_at_def index_in_bounds_def well_formed_def size_inv_def allocated_def
      size_arr_def)

text \<open>
  Claim C1, amended. \<open>insert_at(index, value)\<close> accepts the indices with
  \<open>0 \<le> index < size\<close>: on a well-formed array the call returns normally for each of them
  and the size grows by one, provided the closing \<open>grow()\<close> has nothing to double
  (\<open>size + 1 < capacity\<close>) or the doubled capacity \<open>2 * (size + 1)\<close> fits an \<open>int\<close>; for
  every other index, \<open>index == size\<close> included, and in every state, it fails with
  \<open>IndexOutOfRange\<close>.
\<close>

theorem insert_at_index_range:
  "(well_formed a \<and> 0 \<le> index \<and> index < size_arr a \<and>
    (size_arr a + 1 < capacity a \<or> 2 * (size_arr a + 1) \<le> INT_MAX) \<longrightarrow>
      (\<exists>a'. insert_at a index v = Inr a' \<and> size_arr a' = size_arr a + 1)) \<and>
   (\<not> (0 \<le> index \<and> index < size_arr a) \<longrightarrow>
      insert_at a index v = Inl Index_out_of_bounds \<and>
      kind_of Index_out_of_bounds = Some IndexOutOfRange)"
proof (intro conjI impI)
  assume "well_formed a \<and> 0 \<le> index \<and> index < size_arr a \<and>
    (size_arr a + 1 < capacity a \<or> 2 * (size_arr a + 1) \<le> INT_MAX)"
  then have "well_formed a" "0 \<le> index" "index < m_size a"
    "m_size a + 1 < m_capacity a \<or> 2 * (m_size a + 1) \<le> INT_MAX"
    by (simp_all add: size_arr_def capacity_def)
  from insert_at_wf[OF this, of v]
  show "\<exists>a'. insert_at a index v = Inr a' \<and> size_arr a' = size_arr a + 1"
    by (auto simp: size_arr_def)
next
  assume "\<not> (0 \<le> index \<and> index < size_arr a)"
  then show "insert_at a index v = Inl Index_out_of_bounds"
    by (auto simp: insert_at_def index_in_bounds_def size_arr_def)
qed simp

text \<open>
  Claim C1, amended, at an instance: on the array of capacity 2 holding 5, index 0 is
  accepted, and the indices 1 (the size) and -1 are refused.
\<close>

theorem insert_at_index_range_witness:
  "well_formed \<lparr>m_capacity = 2, m_size = 1, m_array = Some [Some (5::int), None]\<rparr> \<and>
   2 * (size_arr \<lparr>m_capacity = 2, m_size = 1, m_array = Some [Some (5::int), None]\<rparr> + 1)
     \<le> INT_MAX \<and>
   (\<exists>a'. insert_at \<lparr>m_capacity = 2, m_size = 1, m_array = Some [Some (5::int), None]\<rparr> 0 7
            = Inr a' \<and> size_arr a' = 2) \<and>
   insert_at \<lparr>m_capacity = 2, m_size = 1, m_array = Some [Some (5::int), None]\<rparr> 1 7
     = Inl Index_out_of_bounds \<and>
   insert_at \<lparr>m_capacity = 2, m_size = 1, m_array = Some [Some (5::int), None]\<rparr> (- 1) 7
     = Inl Index_out_of_bounds"
  using insert_at_index_range
    [of "\<lparr>m_capacity = 2, m_size = 1, m_array = Some [Some (5::int), None]\<rparr>" 0 7]
    insert_at_index_range
    [of "\<lparr>m_capacity = 2, m_size = 1, m_array = Some [Some (5::int), None]\<rparr>" 1 7]
    insert_at_index_range
    [of "\<lparr>m_capacity = 2, m_size = 1, m_array = Some [Some (5::int), None]\<rparr>" "- 1" 7]
  by (simp add: well_formed_def size_inv_def allocated_def size_arr_def capacity_def INT_MAX_def)

subsection \<open>C2\<close>

text \<open>
  Claim C2 says that \<open>pop\<close> on a non-empty array decreases the size by exactly 1, so
  that \<open>push\<close> followed by \<open>pop\<close> restores the size. The source's \<open>pop\<close> never
  assigns to \<open>_size\<close> (its \<open>--size;\<close> names the member function): after \<open>push(7)\<close> and
  \<open>pop()\<close> on a fresh \<open>Array(1)\<close> the last element is destroyed and the size is still 1.
\<close>

theorem pop_keeps_size:
  "push \<lparr>m_capacity = 1, m_size = 0, m_array = Some [None]\<rparr> (7::int)
     = Inr \<lparr>m_capacity = 1, m_size = 1, m_array = Some [Some 7]\<rparr> \<and>
   pop \<lparr>m_capacity = 1, m_size = 1, m_array = Some [Some (7::int)]\<rparr>
     = Inr \<lparr>m_capacity = 1, m_size = 1, m_array = Some [None]\<rparr>"
  by (simp add: push_def full_def wr_def pop_def empty_arr_def shrink_def cdiv_def)

subsection \<open>C3\<close>

text \<open>
  Claim C3 says that \<open>clear()\<close> sets both capacity and size to 0. The source's
  \<open>clear\<close> assigns \<open>_array\<close> and \<open>_size\<close> only: cleared, the fresh \<open>Array(1)\<close> still has
  capacity 1 and no storage, and a \<open>push(9)\<close> that follows finds room in it and writes
  through \<open>nullptr\<close>.
\<close>

theorem clear_keeps_capacity:
  "clear \<lparr>m_capacity = 1, m_size = 0, m_array = Some [None :: int option]\<rparr>
     = Inr \<lparr>m_capacity = 1, m_size = 0, m_array = None\<rparr> \<and>
   capacity \<lparr>m_capacity = 1, m_size = 0, m_array = None :: int ptr\<rparr> = 1 \<and>
   push \<lparr>m_capacity = 1, m_size = 0, m_array = None\<rparr> (9::int) = Inl Undefined_behaviour"
  by (simp add: clear_eq capacity_def push_def full_def wr_def)

subsection \<open>C4\<close>

text \<open>
  Claim C4 says that the mutable \<open>operator[]\<close> succeeds for every index below the size,
  full or not. The source tests \<open>full()\<close> before it looks at the index: on the full array
  of capacity 1 that \<open>push(7)\<close> leaves, \<open>at(0)\<close> and the \<open>const\<close> \<open>operator[]\<close> read
  7 at index 0, and the mutable \<open>operator[](0)\<close> throws "Array is full".
\<close>

theorem subscript_full_refuses_element:
  "push \<lparr>m_capacity = 1, m_size = 0, m_array = Some [None]\<rparr> (7::int)
     = Inr \<lparr>m_capacity = 1, m_size = 1, m_array = Some [Some 7]\<rparr> \<and>
   at_arr \<lparr>m_capacity = 1, m_size = 1, m_array = Some [Some (7::int)]\<rparr> 0
     = Inr (Some 7) \<and>
   subscript_const \<lparr>m_capacity = 1, m_size = 1, m_array = Some [Some (7::int)]\<rparr> 0
     = Inr (Some 7) \<and>
   subscript \<lparr>m_capacity = 1, m_size = 1, m_array = Some [Some (7::int)]\<rparr> 0
     = Inl Array_is_full \<and>
   kind_of Array_is_full = Some CapacityExceeded"
  by (simp add: push_def full_def wr_def rd_def at_arr_def subscript_const_def
      index_in_bounds_def subscript_def setter_index_in_bounds_def)

subsection \<open>C5\<close>

text \<open>
  Claim C5 states the round trip for every index \<open>0 \<le> i \<le> size\<close>. At \<open>i == size\<close> the
  insert is refused, so there is nothing to remove: on a fresh \<open>Array(1)\<close>,
  \<open>insert_at(0, 7)\<close> followed by \<open>remove_at(0, 1)\<close> ends in \<open>std::out_of_range\<close>.
\<close>

theorem insert_remove_size_counterexample:
  "(0::int) \<le> 0 \<and>
   0 \<le> size_arr \<lparr>m_capacity = 1, m_size = 0, m_array = Some [None :: int option]\<rparr> \<and>
   bnd (insert_at \<lparr>m_capacity = 1, m_size = 0, m_array = Some [None :: int option]\<rparr> 0 7)
       (\<lambda>a1. remove_at a1 0 1) = Inl Index_out_of_bounds"
  by (simp add: insert_at_def index_in_bounds_def size_arr_def)

text \<open>
  Claim C5, amended. On a well-formed array of at most \<open>INT_MAX\<close> slots and for every index
  \<open>0 \<le> i < size\<close>, \<open>insert_at(i, v)\<close> followed by \<open>remove_at(i, 1)\<close> returns normally
  and restores the element sequence (the same size, the same values in the same order),
  provided the closing \<open>grow()\<close> of the insert has nothing to double
  (\<open>size + 1 < capacity\<close>) or the doubled capacity \<open>2 * (size + 1)\<close> fits an \<open>int\<close>.
\<close>

theorem insert_remove_roundtrip:
  "well_formed a \<Longrightarrow> capacity a \<le> INT_MAX \<Longrightarrow> 0 \<le> i \<Longrightarrow> i < size_arr a \<Longrightarrow>
   size_arr a + 1 < capacity a \<or> 2 * (size_arr a + 1) \<le> INT_MAX \<Longrightarrow>
     \<exists>a1 a2. insert_at a i v = Inr a1 \<and> remove_at a1 i 1 = Inr a2 \<and>
             size_arr a2 = size_arr a \<and> elems a2 = elems a"
proof -
  assume w: "well_formed a" and c: "capacity a \<le> INT_MAX" and i: "0 \<le> i" "i < size_arr a"
    and b: "size_arr a + 1 < capacity a \<or> 2 * (size_arr a + 1) \<le> INT_MAX"
  then have i': "i < m_size a"
    and b': "m_size a + 1 < m_capacity a \<or> 2 * (m_size a + 1) \<le> INT_MAX"
    by (simp_all add: size_arr_def capacity_def)
  from insert_at_wf[OF w i(1) i' b', of v] obtain a1 where a1: "insert_at a i v = Inr a1"
    "well_formed a1" "m_size a1 = m_size a + 1"
    "elems a1 = take (nat i) (elems a) @ Some v # drop (nat i) (elems a)" by blast
  have le: "i + 1 \<le> m_size a1" using a1(3) i' by simp
  have "0 \<le> m_size a" using w by (simp add: well_formed_def size_inv_def)
  with b' c have "m_size a1 \<le> INT_MAX" by (auto simp: a1(3) capacity_def)
  from remove_at_wf[OF a1(2) i(1) _ le this] obtain a2 where a2: "remove_at a1 i 1 = Inr a2"
    "m_size a2 = m_size a1 - 1"
    "elems a2 = take (nat i) (elems a1) @ drop (nat (i + 1)) (elems a1)" by auto
  have l: "length (elems a) = nat (m_size a)" using w by (rule length_elems)
  have k: "nat i < length (elems a)" "nat (i + 1) = Suc (nat i)" using l i i' by simp_all
  have "elems a2 = take (nat i) (elems a) @ drop (nat i) (elems a)"
    using k by (simp add: a2(3) a1(4))
  then have "elems a2 = elems a" by simp
  with a1(1,3) a2(1,2) show ?thesis by (simp add: size_arr_def)
qed

text \<open>
  Claim C5, amended, at an instance: \<open>insert_at(1, 99)\<close> then \<open>remove_at(1, 1)\<close> on the
  array \<open>[1, 3, 4]\<close> of capacity 4.
\<close>

theorem insert_remove_roundtrip_witness:
  "well_formed \<lparr>m_capacity = 4, m_size = 3, m_array = Some [Some (1::int), Some 3, Some 4, None]\<rparr> \<and>
   2 * (size_arr \<lparr>m_capacity = 4, m_size = 3,
                   m_array = Some [Some (1::int), Some 3, Some 4, None]\<rparr> + 1) \<le> INT_MAX \<and>
   (\<exists>a1 a2. insert_at \<lparr>m_capacity = 4, m_size = 3,
                        m_array = Some [Some (1::int), Some 3, Some 4, None]\<rparr> 1 99 = Inr a1 \<and>
             remove_at a1 1 1 = Inr a2 \<and> size_arr a2 = 3 \<and>
             elems a2 = [Some 1, Some 3, Some 4])"
  using insert_remove_roundtrip
    [of "\<lparr>m_capacity = 4, m_size = 3, m_array = Some [Some (1::int), Some 3, Some 4, None]\<rparr>" 1 99]
  by (simp add: well_formed_def size_inv_def allocated_def size_arr_def capacity_def elems_def
      INT_MAX_def)

subsection \<open>C6\<close>

text \<open>
  Claim C6 says that \<open>push\<close> doubles the capacity whenever the array is full. The
  capacity is an \<open>int\<close>: on a full array of \<open>2^30\<close> slots \<open>_capacity * 2\<close> overflows to
  a negative value, which \<open>resize\<close> refuses, and \<open>push(9)\<close> throws
  "Invalid capacity argument".
\<close>

theorem push_doubling_counterexample:
  "well_formed \<lparr>m_capacity = 1073741824, m_size = 1073741824,
                 m_array = Some (replicate 1073741824 (Some (0::int)))\<rparr> \<and>
   size_arr \<lparr>m_capacity = 1073741824, m_size = 1073741824,
             m_array = Some (replicate 1073741824 (Some (0::int)))\<rparr>
     = capacity \<lparr>m_capacity = 1073741824, m_size = 1073741824,
                  m_array = Some (replicate 1073741824 (Some (0::int)))\<rparr> \<and>
   push \<lparr>m_capacity = 1073741824, m_size = 1073741824,
          m_array = Some (replicate 1073741824 (Some (0::int)))\<rparr> 9
     = Inl Invalid_capacity_argument"
  by (simp add: well_formed_def size_inv_def allocated_def size_arr_def capacity_def
      push_def full_def grow_def int_mul_def is_int_def INT_MIN_def INT_MAX_def wrap_def
      resize_def is_valid_capacity_def)

text \<open>
  Claim C6, amended. Pushing 1, 2, 3, 4 onto a fresh \<open>Array(1)\<close> gives size 4, capacity 4
  and \<open>at(i) = i + 1\<close> for \<open>i = 0, \<dots>, 3\<close>. In general, on a well-formed array of at
  least one slot: when the array is not full, or is full and \<open>2 * capacity\<close> fits an
  \<open>int\<close>, \<open>push\<close> returns normally, having doubled the capacity first if
  \<open>size == capacity\<close>, written the value after the last element and incremented the size;
  when the array is full and \<open>2 * capacity\<close> exceeds \<open>INT_MAX\<close>, \<open>push\<close> fails with
  \<open>InvalidArgument\<close>.
\<close>

theorem push_growth:
  "bnd (Array_new 1) (\<lambda>a. push_all a [1, 2, 3, 4 :: int])
     = Inr \<lparr>m_capacity = 4, m_size = 4, m_array = Some [Some 1, Some 2, Some 3, Some 4]\<rparr> \<and>
   size_arr \<lparr>m_capacity = 4, m_size = 4,
             m_array = Some [Some (1::int), Some 2, Some 3, Some 4]\<rparr> = 4 \<and>
   capacity \<lparr>m_capacity = 4, m_size = 4,
             m_array = Some [Some (1::int), Some 2, Some 3, Some 4]\<rparr> = 4 \<and>
   map (at_arr \<lparr>m_capacity = 4, m_size = 4,
                 m_array = Some [Some (1::int), Some 2, Some 3, Some 4]\<rparr>) [0, 1, 2, 3]
     = [Inr (Some 1), Inr (Some 2), Inr (Some 3), Inr (Some 4)] \<and>
   (well_formed a \<and> 1 \<le> capacity a \<and>
    (size_arr a \<noteq> capacity a \<or> capacity a * 2 \<le> INT_MAX) \<longrightarrow>
      (\<exists>a'. push a v = Inr a' \<and>
            capacity a' = (if size_arr a = capacity a then capacity a * 2 else capacity a) \<and>
            size_arr a' = size_arr a + 1 \<and>
            elems a' = elems a @ [Some v])) \<and>
   (well_formed a \<and> 1 \<le> capacity a \<and> capacity a \<le> INT_MAX \<and>
    size_arr a = capacity a \<and> INT_MAX < capacity a * 2 \<longrightarrow>
      push a v = Inl Invalid_capacity_argument \<and>
      kind_of Invalid_capacity_argument = Some InvalidArgument)"
proof (intro conjI impI)
  show "bnd (Array_new 1) (\<lambda>a. push_all a [1, 2, 3, 4 :: int])
     = Inr \<lparr>m_capacity = 4, m_size = 4, m_array = Some [Some 1, Some 2, Some 3, Some 4]\<rparr>"
    by (simp add: Array_new_1 push_def full_def grow_def resize_def is_valid_capacity_def
        new_arr_def copy_loop.simps rd_def wr_def clear_eq eval_nat_numeral
        int_mul_def is_int_def INT_MIN_def INT_MAX_def wrap_def)
next
  show "map (at_arr \<lparr>m_capacity = 4, m_size = 4,
                 m_array = Some [Some (1::int), Some 2, Some 3, Some 4]\<rparr>) [0, 1, 2, 3]
     = [Inr (Some 1), Inr (Some 2), Inr (Some 3), Inr (Some 4)]"
    by (simp add: at_arr_def index_in_bounds_def rd_def eval_nat_numeral)
next
  assume "well_formed a \<and> 1 \<le> capacity a \<and>
    (size_arr a \<noteq> capacity a \<or> capacity a * 2 \<le> INT_MAX)"
  then have w: "well_formed a" and c: "1 \<le> m_capacity a"
    and b: "full a \<Longrightarrow> m_capacity a * 2 \<le> INT_MAX"
    by (auto simp: capacity_def size_arr_def full_def)
  from w have "size_inv a" "allocated a \<or> m_capacity a = 0" by (simp_all add: well_formed_def)
  from push_wf[OF this b, of v] c
  show "\<exists>a'. push a v = Inr a' \<and>
            capacity a' = (if size_arr a = capacity a then capacity a * 2 else capacity a) \<and>
            size_arr a' = size_arr a + 1 \<and>
            elems a' = elems a @ [Some v]"
    by (auto simp: capacity_def size_arr_def full_def)
next
  assume "well_formed a \<and> 1 \<le> capacity a \<and> capacity a \<le> INT_MAX \<and>
    size_arr a = capacity a \<and> INT_MAX < capacity a * 2"
  then have c: "1 \<le> m_capacity a" "m_capacity a \<le> INT_MAX" and f: "full a"
    and o: "INT_MAX < m_capacity a * 2"
    by (simp_all add: capacity_def size_arr_def full_def)
  from c have "is_int (m_capacity a)" by (simp add: is_int_def INT_MIN_def)
  from int_mul_2_overflow [OF this o] c f
  show "push a v = Inl Invalid_capacity_argument"
    by (simp add: push_def grow_def resize_def is_valid_capacity_def)
qed (simp_all add: size_arr_def capacity_def)

text \<open>
  Claim C6, the general part at instances: \<open>push(2)\<close> on the full array \<open>[1]\<close> of
  capacity 1, and \<open>push(9)\<close> on a full array of \<open>2^30\<close> slots.
\<close>

theorem push_growth_witness:
  "well_formed \<lparr>m_capacity = 1, m_size = 1, m_array = Some [Some (1::int)]\<rparr> \<and>
   capacity \<lparr>m_capacity = 1, m_size = 1, m_array = Some [Some (1::int)]\<rparr> * 2 \<le> INT_MAX \<and>
   (\<exists>a'. push \<lparr>m_capacity = 1, m_size = 1, m_array = Some [Some (1::int)]\<rparr> 2 = Inr a' \<and>
         capacity a' = 2 \<and> size_arr a' = 2 \<and> elems a' = [Some 1, Some 2]) \<and>
   well_formed \<lparr>m_capacity = 1073741824, m_size = 1073741824,
                 m_array = Some (replicate 1073741824 (Some (0::int)))\<rparr> \<and>
   INT_MAX < capacity \<lparr>m_capacity = 1073741824, m_size = 1073741824,
                        m_array = Some (replicate 1073741824 (Some (0::int)))\<rparr> * 2 \<and>
   push \<lparr>m_capacity = 1073741824, m_size = 1073741824,
          m_array = Some (replicate 1073741824 (Some (0::int)))\<rparr> 9
     = Inl Invalid_capacity_argument"
  using push_growth [of "\<lparr>m_capacity = 1, m_size = 1, m_array = Some [Some (1::int)]\<rparr>" 2]
    push_growth [of "\<lparr>m_capacity = 1073741824, m_size = 1073741824,
                       m_array = Some (replicate 1073741824 (Some (0::int)))\<rparr>" 9]
  by (simp add: well_formed_def size_inv_def allocated_def capacity_def size_arr_def elems_def
      INT_MAX_def)

subsection \<open>C7\<close>

text \<open>
  Claim C7. \<open>resize(new_capacity)\<close> fails with \<open>InvalidArgument\<close> for every
  \<open>new_capacity < 1\<close>; it changes nothing when \<open>new_capacity == capacity\<close>; otherwise, on a
  well-formed array, it allocates a block of \<open>new_capacity\<close> slots, copies the first
  \<open>min(new_capacity, size)\<close> elements in order (the other slots of the block stay
  unassigned) and sets the size to that count, so that a resize below the size drops the
  trailing elements.
\<close>

theorem resize_spec:
  "(new_capacity < 1 \<longrightarrow>
      resize a new_capacity = Inl Invalid_capacity_argument \<and>
      kind_of Invalid_capacity_argument = Some InvalidArgument) \<and>
   (1 \<le> new_capacity \<and> new_capacity = capacity a \<longrightarrow> resize a new_capacity = Inr a) \<and>
   (well_formed a \<and> 1 \<le> new_capacity \<and> new_capacity \<noteq> capacity a \<longrightarrow>
      (\<exists>a'. resize a new_capacity = Inr a' \<and>
            capacity a' = new_capacity \<and>
            size_arr a' = min new_capacity (size_arr a) \<and>
            elems a' = take (nat (min new_capacity (size_arr a))) (elems a) \<and>
            m_array a' = Some (take (nat (min new_capacity (size_arr a))) (elems a) @
                               replicate (nat (new_capacity - min new_capacity (size_arr a))) None)))"
proof (intro conjI impI)
  assume "new_capacity < 1"
  then show "resize a new_capacity = Inl Invalid_capacity_argument"
    by (simp add: resize_def is_valid_capacity_def)
next
  show "kind_of Invalid_capacity_argument = Some InvalidArgument" by simp
next
  assume "1 \<le> new_capacity \<and> new_capacity = capacity a"
  then show "resize a new_capacity = Inr a"
    by (simp add: resize_def is_valid_capacity_def capacity_def)
next
  assume h: "well_formed a \<and> 1 \<le> new_capacity \<and> new_capacity \<noteq> capacity a"
  then have w: "well_formed a" and n: "1 \<le> new_capacity" "new_capacity \<noteq> m_capacity a"
    by (simp_all add: capacity_def)
  define cl where "cl = min new_capacity (m_size a)"
  have l: "length (elems a) = nat (m_size a)" using w by (rule length_elems)
  have "0 \<le> m_size a" using w by (simp add: well_formed_def size_inv_def)
  then have "nat cl \<le> length (elems a)" using l n by (simp add: cl_def)
  then have t: "take (nat cl) (take (nat cl) (elems a) @ replicate (nat (new_capacity - cl)) None)
      = take (nat cl) (elems a)" by simp
  let ?arr = "take (nat cl) (elems a) @ replicate (nat (new_capacity - cl)) None"
  let ?a' = "a\<lparr>m_array := Some ?arr, m_capacity := new_capacity, m_size := cl\<rparr>"
  have r: "resize a new_capacity = Inr ?a'"
    using resize_realloc[OF w n] by (simp add: cl_def)
  have "elems ?a' = take (nat cl) ?arr" by (simp add: elems_def)
  with t have e: "elems ?a' = take (nat cl) (elems a)" by (simp only:)
  have "resize a new_capacity = Inr ?a' \<and> capacity ?a' = new_capacity \<and> size_arr ?a' = cl \<and>
        elems ?a' = take (nat cl) (elems a) \<and> m_array ?a' = Some ?arr"
    using r e by (simp add: capacity_def size_arr_def)
  then show "\<exists>a'. resize a new_capacity = Inr a' \<and>
            capacity a' = new_capacity \<and>
            size_arr a' = min new_capacity (size_arr a) \<and>
            elems a' = take (nat (min new_capacity (size_arr a))) (elems a) \<and>
            m_array a' = Some (take (nat (min new_capacity (size_arr a))) (elems a) @
                               replicate (nat (new_capacity - min new_capacity (size_arr a))) None)"
    unfolding cl_def size_arr_def by (rule exI[of _ "a\<lparr>m_array := Some (take (nat (min new_capacity (m_size a))) (elems a) @ replicate (nat (new_capacity - min new_capacity (m_size a))) None), m_capacity := new_capacity, m_size := min new_capacity (m_size a)\<rparr>"])
qed

text \<open>
  Claim C7, at instances of each case on the array \<open>[1, 3, 4]\<close> of capacity 4:
  \<open>resize(0)\<close>, \<open>resize(4)\<close> and \<open>resize(2)\<close>, which keeps \<open>[1, 3]\<close>.
\<close>

theorem resize_spec_witness:
  "resize \<lparr>m_capacity = 4, m_size = 3, m_array = Some [Some (1::int), Some 3, Some 4, None]\<rparr> 0
     = Inl Invalid_capacity_argument \<and>
   resize \<lparr>m_capacity = 4, m_size = 3, m_array = Some [Some (1::int), Some 3, Some 4, None]\<rparr> 4
     = Inr \<lparr>m_capacity = 4, m_size = 3, m_array = Some [Some (1::int), Some 3, Some 4, None]\<rparr> \<and>
   well_formed \<lparr>m_capacity = 4, m_size = 3, m_array = Some [Some (1::int), Some 3, Some 4, None]\<rparr> \<and>
   (\<exists>a'. resize \<lparr>m_capacity = 4, m_size = 3, m_array = Some [Some (1::int), Some 3, Some 4, None]\<rparr> 2
            = Inr a' \<and> capacity a' = 2 \<and> size_arr a' = 2 \<and> elems a' = [Some 1, Some 3] \<and>
            m_array a' = Some [Some 1, Some 3])"
  using resize_spec
    [of 0 "\<lparr>m_capacity = 4, m_size = 3, m_array = Some [Some (1::int), Some 3, Some 4, None]\<rparr>"]
    resize_spec
    [of 4 "\<lparr>m_capacity = 4, m_size = 3, m_array = Some [Some (1::int), Some 3, Some 4, None]\<rparr>"]
    resize_spec
    [of 2 "\<lparr>m_capacity = 4, m_size = 3, m_array = Some [Some (1::int), Some 3, Some 4, None]\<rparr>"]
  by (simp add: well_formed_def size_inv_def allocated_def size_arr_def capacity_def elems_def
     eval_nat_numeral)

subsection \<open>C8\<close>

text \<open>
  Claim C8. The representation invariant \<open>0 \<le> size \<le> capacity\<close> holds after
  construction, and every public operation that returns normally (\<open>push\<close>, \<open>pop\<close>,
  the mutable \<open>operator[]\<close>, \<open>insert_at\<close>, \<open>remove_at\<close>, \<open>remove\<close>, \<open>resize\<close>,
  \<open>reverse\<close>, \<open>clear\<close>) preserves it.
\<close>

theorem size_inv_preserved:
  "(Array_new c = Inr a0 \<longrightarrow> size_inv a0) \<and>
   (size_inv a \<and> apply_operation a oper = Inr a' \<longrightarrow> size_inv a')"
proof (intro conjI impI)
  assume "Array_new c = Inr a0" then show "size_inv a0" by (rule Array_new_inv)
next
  assume h: "size_inv a \<and> apply_operation a oper = Inr a'"
  then have i: "size_inv a" and o: "apply_operation a oper = Inr a'" by simp_all
  show "size_inv a'"
  proof (cases oper)
    case (Push v) with i o show ?thesis by (auto dest: push_inv)
  next
    case Pop with i o show ?thesis by (auto dest: pop_inv)
  next
    case (Subscript j) with i o show ?thesis by (auto simp: bnd_eq_Inr dest: subscript_inv)
  next
    case (Insert_at j v) with i o show ?thesis by (auto dest: insert_at_inv)
  next
    case (Remove_at j l) with i o show ?thesis by (auto dest: remove_at_inv)
  next
    case (Remove v) with i o show ?thesis by (auto dest: remove_inv)
  next
    case (Resize n) with i o show ?thesis by (auto dest: resize_inv)
  next
    case Reverse with i o show ?thesis by (auto dest: reverse_inv)
  next
    case Clear with i o show ?thesis by (auto dest: clear_inv)
  qed
qed

text \<open>
  Claim C8, at an instance: \<open>Array(1)\<close> satisfies the invariant, and so does the array
  after \<open>push(7)\<close>.
\<close>

theorem size_inv_preserved_witness:
  "Array_new 1 = Inr \<lparr>m_capacity = 1, m_size = 0, m_array = Some [None :: int option]\<rparr> \<and>
   size_inv \<lparr>m_capacity = 1, m_size = 0, m_array = Some [None :: int option]\<rparr> \<and>
   apply_operation \<lparr>m_capacity = 1, m_size = 0, m_array = Some [None :: int option]\<rparr> (Push 7)
     = Inr \<lparr>m_capacity = 1, m_size = 1, m_array = Some [Some 7]\<rparr> \<and>
   size_inv \<lparr>m_capacity = 1, m_size = 1, m_array = Some [Some (7::int)]\<rparr>"
proof -
  have n: "Array_new 1 = Inr \<lparr>m_capacity = 1, m_size = 0, m_array = Some [None :: int option]\<rparr>"
    by (simp add: Array_new_def set_capacity_def set_size_def is_valid_capacity_def
        is_valid_size_def new_arr_def)
  have p: "apply_operation \<lparr>m_capacity = 1, m_size = 0, m_array = Some [None :: int option]\<rparr>
      (Push 7) = Inr \<lparr>m_capacity = 1, m_size = 1, m_array = Some [Some 7]\<rparr>"
    by (simp add: push_def full_def wr_def)
  from size_inv_preserved
    [of 1 "\<lparr>m_capacity = 1, m_size = 0, m_array = Some [None :: int option]\<rparr>"
        "\<lparr>m_capacity = 1, m_size = 0, m_array = Some [None :: int option]\<rparr>" "Push 7"
        "\<lparr>m_capacity = 1, m_size = 1, m_array = Some [Some 7]\<rparr>"] n p
  show ?thesis by simp
qed

subsection \<open>C9\<close>

text \<open>
  Claim C9. When \<open>insert_at\<close> returns normally on a full array (\<open>size == capacity\<close>), the
  capacity afterwards is exactly \<open>2 * (old_capacity + 1)\<close>: the array built with one slot
  more is full again, and the closing \<open>grow()\<close> doubles it.
\<close>

theorem insert_at_full_doubles:
  "full a \<Longrightarrow> insert_at a index v = Inr a' \<Longrightarrow> capacity a' = 2 * (capacity a + 1)"
proof -
  assume f: "full a" and p: "insert_at a index v = Inr a'"
  from insert_at_Inr [OF p] f obtain p1 where i: "0 \<le> index" "index < m_size a"
    and le: "m_size a + 1 \<le> int_add (m_capacity a) 1"
    and g: "grow (a\<lparr>m_array := p1, m_capacity := int_add (m_capacity a) 1,
                    m_size := m_size a + 1\<rparr>) = Inr a'"
    by auto
  from int_add_cases [of "m_capacity a" 1] le i f
  have nc: "int_add (m_capacity a) 1 = m_capacity a + 1"
    by (auto simp: full_def INT_MIN_def)
  have "0 < m_capacity a" using i f by (simp add: full_def)
  with grow_result [OF g] f show ?thesis
    by (simp add: nc full_def capacity_def)
qed

text \<open>
  Claim C9, at an instance: \<open>insert_at(0, 9)\<close> on the full array \<open>[7]\<close> of capacity 1
  gives \<open>[9, 7]\<close> with capacity 4.
\<close>

theorem insert_at_full_doubles_witness:
  "full \<lparr>m_capacity = 1, m_size = 1, m_array = Some [Some (7::int)]\<rparr> \<and>
   insert_at \<lparr>m_capacity = 1, m_size = 1, m_array = Some [Some (7::int)]\<rparr> 0 9
     = Inr \<lparr>m_capacity = 4, m_size = 2, m_array = Some [Some 9, Some 7, None, None]\<rparr> \<and>
   capacity \<lparr>m_capacity = 4, m_size = 2, m_array = Some [Some 9, Some (7::int), None, None]\<rparr>
     = 2 * (capacity \<lparr>m_capacity = 1, m_size = 1, m_array = Some [Some (7::int)]\<rparr> + 1)"
proof -
  have f: "full \<lparr>m_capacity = 1, m_size = 1, m_array = Some [Some (7::int)]\<rparr>"
    by (simp add: full_def)
  have p: "insert_at \<lparr>m_capacity = 1, m_size = 1, m_array = Some [Some (7::int)]\<rparr> 0 9
     = Inr \<lparr>m_capacity = 4, m_size = 2, m_array = Some [Some 9, Some 7, None, None]\<rparr>"
    by (simp add: insert_at_def index_in_bounds_def full_def new_arr_def copy_loop.simps
        rd_def wr_def clear_eq grow_def resize_def is_valid_capacity_def eval_nat_numeral
        int_add_def int_mul_def is_int_def INT_MIN_def INT_MAX_def wrap_def)
  from insert_at_full_doubles[OF f p] f p show ?thesis by simp
qed

subsection \<open>C10\<close>

text \<open>
  Claim C10. On an empty array \<open>pop_back()\<close> and \<open>pop_front()\<close> fail with
  \<open>std::out_of_range\<close> (\<open>IndexOutOfRange\<close>), thrown by the start-index check of
  \<open>remove_at\<close>, whereas \<open>pop()\<close> fails with the "Array is empty" error (\<open>Underflow\<close>).
\<close>

theorem pop_back_pop_front_empty:
  "empty_arr a \<Longrightarrow>
     pop_back a = Inl Index_out_of_bounds \<and> pop_front a = Inl Index_out_of_bounds \<and>
     kind_of Index_out_of_bounds = Some IndexOutOfRange \<and>
     pop a = Inl Array_is_empty \<and> kind_of Array_is_empty = Some Underflow"
  by (simp add: empty_arr_def pop_back_def pop_front_def remove_at_def index_in_bounds_def pop_def)

text \<open>Claim C10, at the fresh \<open>Array(1)\<close>.\<close>

theorem pop_back_pop_front_empty_witness:
  "empty_arr \<lparr>m_capacity = 1, m_size = 0, m_array = Some [None :: int option]\<rparr> \<and>
   pop_back \<lparr>m_capacity = 1, m_size = 0, m_array = Some [None :: int option]\<rparr>
     = Inl Index_out_of_bounds \<and>
   pop_front \<lparr>m_capacity = 1, m_size = 0, m_array = Some [None :: int option]\<rparr>
     = Inl Index_out_of_bounds \<and>
   pop \<lparr>m_capacity = 1, m_size = 0, m_array = Some [None :: int option]\<rparr>
     = Inl Array_is_empty"
  using pop_back_pop_front_empty
    [of "\<lparr>m_capacity = 1, m_size = 0, m_array = Some [None :: int option]\<rparr>"]
  by (simp add: empty_arr_def)

end
